theory Spec2Isabelle
  imports Main
begin

section \<open>Go primitives used by package ringbuffer\<close>

text \<open>
  The package stores \<^verbatim>\<open>interface{}\<close> values; a slot that was never written holds
  \<^verbatim>\<open>nil\<close>. A slot is modelled as \<open>'a option\<close>, with \<open>None\<close> for \<^verbatim>\<open>nil\<close>.

  Go's \<^verbatim>\<open>int\<close> is modelled as \<open>int\<close>. Sizes, heads and slice lengths are
  bounded by the address space, so in a state that satisfies the ring invariant no
  sum or difference formed by the package wraps around: \<^verbatim>\<open>Index\<close> first reduces
  its offset to less than the size in absolute value, \<^verbatim>\<open>Next\<close> adds a step of at
  most the capacity to the head, and \<^verbatim>\<open>Remove\<close> subtracts a positive count from
  a size that is not negative. Running out of memory in \<^verbatim>\<open>make\<close> is not modelled.
\<close>

type_synonym 'a iface = "'a option"

text \<open>The two error values of the package.\<close>

datatype error = EmptyError | FullError

text \<open>
  Ways in which a call does not return: the run-time panics of Go that the code can
  raise, the explicit \<^verbatim>\<open>panic(FullError)\<close> of \<^verbatim>\<open>AddAll\<close>, and a loop that
  never exits.
\<close>

datatype fault =
    DivideByZero
  | IndexOutOfRange
  | SliceBoundsOutOfRange
  | MakeSliceLenOutOfRange
  | PanicFullError
  | NonTermination

text \<open>Go's \<^verbatim>\<open>%\<close> on non-zero divisors: the remainder has the sign of the dividend.\<close>

definition go_rem :: "int \<Rightarrow> int \<Rightarrow> int" where
  "go_rem a b = sgn a * (\<bar>a\<bar> mod \<bar>b\<bar>)"

text \<open>\<^verbatim>\<open>s[i]\<close> read and \<^verbatim>\<open>s[i] = v\<close>: both panic outside \<open>[0, len s)\<close>.\<close>

definition load :: "'a list \<Rightarrow> int \<Rightarrow> fault + 'a" where
  "load s i = (if i < 0 \<or> int (length s) \<le> i then Inl IndexOutOfRange else Inr (s ! nat i))"

definition store :: "'a list \<Rightarrow> int \<Rightarrow> 'a \<Rightarrow> fault + 'a list" where
  "store s i v = (if i < 0 \<or> int (length s) \<le> i then Inl IndexOutOfRange else Inr (s[nat i := v]))"

text \<open>
  The slice expressions \<^verbatim>\<open>s[lo:]\<close>, \<^verbatim>\<open>s[:hi]\<close> and \<^verbatim>\<open>s[lo:hi]\<close>. Every slice
  of the package is made by \<^verbatim>\<open>make\<close> with a length only, so its capacity is its length.
\<close>

definition slice_from :: "'a list \<Rightarrow> int \<Rightarrow> fault + 'a list" where
  "slice_from s lo =
     (if lo < 0 \<or> int (length s) < lo then Inl SliceBoundsOutOfRange
      else Inr (drop (nat lo) s))"

definition slice_to :: "'a list \<Rightarrow> int \<Rightarrow> fault + 'a list" where
  "slice_to s hi =
     (if hi < 0 \<or> int (length s) < hi then Inl SliceBoundsOutOfRange
      else Inr (take (nat hi) s))"

definition slice :: "'a list \<Rightarrow> int \<Rightarrow> int \<Rightarrow> fault + 'a list" where
  "slice s lo hi =
     (if lo < 0 \<or> hi < lo \<or> int (length s) < hi then Inl SliceBoundsOutOfRange
      else Inr (take (nat hi - nat lo) (drop (nat lo) s)))"

text \<open>
  \<^verbatim>\<open>copy(dst, src)\<close> copies \<open>min (len dst) (len src)\<close> elements and returns that
  number; the model returns the new contents of \<open>dst\<close> with it.
\<close>

definition copy_go :: "'a list \<Rightarrow> 'a list \<Rightarrow> 'a list \<times> nat" where
  "copy_go dst src =
     (let n = min (length dst) (length src) in (take n src @ drop n dst, n))"

section \<open>Index arithmetic\<close>

definition Next :: "int \<Rightarrow> int \<Rightarrow> int \<Rightarrow> fault + int" where
  "Next i latest capacity =
     (if capacity = 0 then Inl DivideByZero
      else let n = go_rem (latest + i) capacity
           in Inr (if n < 0 then n + capacity else n))"

text \<open>The loop \<^verbatim>\<open>for pos < 0 { pos += capacity }\<close> of \<^verbatim>\<open>Index\<close>; \<open>None\<close> is a loop that never exits.\<close>

partial_function (option) Index_loop :: "int \<Rightarrow> int \<Rightarrow> int option" where
  "Index_loop pos capacity =
     (if pos < 0 then Index_loop (pos + capacity) capacity else Some pos)"

declare Index_loop.simps [code]

definition Index :: "int \<Rightarrow> int \<Rightarrow> int \<Rightarrow> int \<Rightarrow> int option" where
  "Index i h sz capacity =
     (if sz = 0 then Some (- 1)
      else let i1 = go_rem i sz;
               i2 = (if i1 < 0 then i1 + sz else i1);
               pos = h - i2
           in Index_loop pos capacity)"

section \<open>The ring\<close>

text \<open>The lock of the struct is left out: the model is of one thread.\<close>

record 'a Ring =
  head :: int
  size_r :: int
  buf :: "'a iface list"

definition New :: "int \<Rightarrow> fault + 'a Ring" where
  "New capacity =
     (if capacity < 0 then Inl MakeSliceLenOutOfRange
      else Inr \<lparr>head = - 1, size_r = 0, buf = replicate (nat capacity) None\<rparr>)"

definition Add :: "'a Ring \<Rightarrow> 'a iface \<Rightarrow> fault + (error option \<times> 'a Ring)" where
  "Add b val =
     (if int (length (buf b)) \<le> size_r b then Inr (Some FullError, b)
      else case Next 1 (head b) (int (length (buf b))) of
             Inl f \<Rightarrow> Inl f
           | Inr next \<Rightarrow>
               (case store (buf b) next val of
                  Inl f \<Rightarrow> Inl f
                | Inr buf' \<Rightarrow> Inr (None, b\<lparr>buf := buf', head := next, size_r := size_r b + 1\<rparr>)))"

text \<open>
  One pass through the body of the loop of \<^verbatim>\<open>AddAll\<close>: the ring and the values
  left after it. \<^verbatim>\<open>tgt\<close> shares its array with \<^verbatim>\<open>b.buf\<close>, so the copy into
  \<^verbatim>\<open>tgt\<close> rewrites \<^verbatim>\<open>b.buf\<close> from \<^verbatim>\<open>next\<close> on.
\<close>

definition AddAll_step :: "'a Ring \<Rightarrow> 'a iface list \<Rightarrow> fault + ('a Ring \<times> 'a iface list)" where
  "AddAll_step b vals =
     (case Next 1 (head b) (int (length (buf b))) of
        Inl f \<Rightarrow> Inl f
      | Inr next \<Rightarrow>
          (case slice_from (buf b) next of
             Inl f \<Rightarrow> Inl f
           | Inr tgt \<Rightarrow>
               (let (tgt', n) = copy_go tgt vals in
                if n = 0 then Inl PanicFullError
                else case Next (int n) (head b) (int (length (buf b))) of
                       Inl f \<Rightarrow> Inl f
                     | Inr h \<Rightarrow>
                         Inr (b\<lparr>buf := take (nat next) (buf b) @ tgt', head := h,
                                size_r := size_r b + int n\<rparr>,
                              drop n vals))))"

function AddAll_loop :: "'a Ring \<Rightarrow> 'a iface list \<Rightarrow> fault + 'a Ring" where
  "AddAll_loop b vals =
     (if 0 < length vals then
        (case AddAll_step b vals of
           Inl f \<Rightarrow> Inl f
         | Inr (b', vals') \<Rightarrow> AddAll_loop b' vals')
      else Inr b)"
  by pat_completeness auto
termination
  by (relation "measure (\<lambda>(b, vals). length vals)")
     (auto simp: AddAll_step_def Let_def split: sum.splits prod.splits if_splits)

definition AddAll :: "'a Ring \<Rightarrow> 'a iface list \<Rightarrow> fault + (error option \<times> 'a Ring)" where
  "AddAll b vals =
     (if int (length (buf b)) < size_r b + int (length vals) then Inr (Some FullError, b)
      else case AddAll_loop b vals of
             Inl f \<Rightarrow> Inl f
           | Inr b' \<Rightarrow> Inr (None, b'))"

text \<open>\<^verbatim>\<open>Remove\<close> has no operation that can panic, so it returns the ring itself.\<close>

definition Remove :: "'a Ring \<Rightarrow> int \<Rightarrow> 'a Ring" where
  "Remove b count =
     (if count \<le> 0 then b
      else let sz = size_r b - count
           in if sz \<le> 0 then b\<lparr>size_r := 0, head := - 1\<rparr> else b\<lparr>size_r := sz\<rparr>)"

definition SetCapacity :: "'a Ring \<Rightarrow> int \<Rightarrow> fault + 'a Ring" where
  "SetCapacity b capacity0 =
     (let capacity = (if capacity0 < size_r b then size_r b else capacity0) in
      if capacity = int (length (buf b)) then Inr b
      else if capacity < 0 then Inl MakeSliceLenOutOfRange
      else
        let nbuf = replicate (nat capacity) None;
            h = head b
        in case Index (- 1) h (size_r b) (int (length (buf b))) of
             None \<Rightarrow> Inl NonTermination
           | Some tail \<Rightarrow>
               if tail < h then
                 (case slice (buf b) tail (h + 1) of
                    Inl f \<Rightarrow> Inl f
                  | Inr src \<Rightarrow>
                      Inr (b\<lparr>buf := fst (copy_go nbuf src), head := size_r b - 1\<rparr>))
               else
                 (case slice_from (buf b) tail of
                    Inl f \<Rightarrow> Inl f
                  | Inr src1 \<Rightarrow>
                      (let (nbuf1, n) = copy_go nbuf src1 in
                       case slice_to (buf b) (h + 1) of
                         Inl f \<Rightarrow> Inl f
                       | Inr src2 \<Rightarrow>
                           Inr (b\<lparr>buf := take n nbuf1 @ fst (copy_go (drop n nbuf1) src2),
                                  head := size_r b - 1\<rparr>))))"

definition Capacity :: "'a Ring \<Rightarrow> int" where
  "Capacity b = int (length (buf b))"

definition Size :: "'a Ring \<Rightarrow> int" where
  "Size b = size_r b"

definition Push :: "'a Ring \<Rightarrow> 'a iface \<Rightarrow> fault + 'a Ring" where
  "Push b v =
     (if length (buf b) = 0 \<or> size_r b = 0 then Inr b
      else case Next 1 (head b) (int (length (buf b))) of
             Inl f \<Rightarrow> Inl f
           | Inr next \<Rightarrow>
               (case store (buf b) next v of
                  Inl f \<Rightarrow> Inl f
                | Inr buf' \<Rightarrow> Inr (b\<lparr>buf := buf', head := next\<rparr>)))"

text \<open>
  \<^verbatim>\<open>Get\<close> returns \<^verbatim>\<open>(0, EmptyError)\<close> on the empty ring; the model keeps the
  error and drops the placeholder \<open>0\<close> that comes with it.
\<close>

definition Get :: "'a Ring \<Rightarrow> int \<Rightarrow> fault + (error + 'a iface)" where
  "Get b i =
     (if size_r b = 0 then Inr (Inl EmptyError)
      else case Index i (head b) (size_r b) (int (length (buf b))) of
             None \<Rightarrow> Inl NonTermination
           | Some position \<Rightarrow>
               (case load (buf b) position of
                  Inl f \<Rightarrow> Inl f
                | Inr x \<Rightarrow> Inr (Inr x)))"

section \<open>Sequences of calls\<close>

text \<open>A client program is a list of calls; a call that panics ends the run.\<close>

datatype 'a call =
    CallAdd "'a iface"
  | CallAddAll "'a iface list"
  | CallRemove int
  | CallPush "'a iface"
  | CallSetCapacity int
  | CallGet int

fun exec :: "'a Ring \<Rightarrow> 'a call \<Rightarrow> fault + 'a Ring" where
  "exec b (CallAdd v) = (case Add b v of Inl f \<Rightarrow> Inl f | Inr (e, b') \<Rightarrow> Inr b')"
| "exec b (CallAddAll vs) = (case AddAll b vs of Inl f \<Rightarrow> Inl f | Inr (e, b') \<Rightarrow> Inr b')"
| "exec b (CallRemove n) = Inr (Remove b n)"
| "exec b (CallPush v) = Push b v"
| "exec b (CallSetCapacity n) = SetCapacity b n"
| "exec b (CallGet i) = (case Get b i of Inl f \<Rightarrow> Inl f | Inr r \<Rightarrow> Inr b)"

fun run :: "'a Ring \<Rightarrow> 'a call list \<Rightarrow> fault + 'a Ring" where
  "run b [] = Inr b"
| "run b (c # cs) = (case exec b c of Inl f \<Rightarrow> Inl f | Inr b' \<Rightarrow> run b' cs)"

text \<open>The sequential calls \<^verbatim>\<open>Add(v1); ...; Add(vn)\<close>, stopping at the first that fails.\<close>

fun Add_seq :: "'a Ring \<Rightarrow> 'a iface list \<Rightarrow> fault + (error option \<times> 'a Ring)" where
  "Add_seq b [] = Inr (None, b)"
| "Add_seq b (v # vs) =
     (case Add b v of
        Inl f \<Rightarrow> Inl f
      | Inr (Some e, b') \<Rightarrow> Inr (Some e, b')
      | Inr (None, b') \<Rightarrow> Add_seq b' vs)"

text \<open>The state invariant of the ring.\<close>

definition ring_inv :: "'a Ring \<Rightarrow> bool" where
  "ring_inv b \<longleftrightarrow>
     0 \<le> size_r b \<and> size_r b \<le> int (length (buf b)) \<and>
     (size_r b = 0 \<longleftrightarrow> head b = - 1) \<and>
     (0 < size_r b \<longrightarrow> 0 \<le> head b \<and> head b < int (length (buf b)))"

section \<open>Facts about the index arithmetic\<close>

text \<open>
  Folding Go's remainder by adding the divisor when it is negative gives the
  mathematical remainder.
\<close>

lemma go_rem_fold:
  "0 < b \<Longrightarrow> (if go_rem a b < 0 then go_rem a b + b else go_rem a b) = a mod b"
proof (cases "0 \<le> a")
  case True
  assume "0 < b"
  with True show ?thesis by (cases "a = 0") (simp_all add: go_rem_def not_less)
next
  case False
  assume b: "0 < b"
  from False have a: "a < 0" by simp
  have g: "go_rem a b = - ((- a) mod b)" using a b by (simp add: go_rem_def)
  have m: "(- a) mod b = (if a mod b = 0 then 0 else b - a mod b)"
    by (rule zmod_zminus1_eq_if)
  have nn: "0 \<le> a mod b" "a mod b < b" using b by simp_all
  show ?thesis using g m nn by (auto split: if_splits)
qed

lemma Next_mod: "0 < c \<Longrightarrow> Next i l c = Inr ((l + i) mod c)"
  by (simp add: Next_def Let_def go_rem_fold)

text \<open>With a positive capacity the loop of \<^verbatim>\<open>Index\<close> exits.\<close>

lemma Index_loop_pos: "0 < c \<Longrightarrow> Index_loop p c = Some (if p < 0 then p mod c else p)"
proof (induction "nat (- p)" arbitrary: p rule: less_induct)
  case less
  show ?case
  proof (cases "p < 0")
    case False
    then show ?thesis by (subst Index_loop.simps) simp
  next
    case True
    have step: "Index_loop p c = Index_loop (p + c) c"
      using True by (subst Index_loop.simps) simp
    have "Index_loop (p + c) c = Some (if p + c < 0 then (p + c) mod c else p + c)"
      using less.hyps [of "p + c"] less.prems True by simp
    moreover have "(if p + c < 0 then (p + c) mod c else p + c) = p mod c"
    proof (cases "p + c < 0")
      case True
      then show ?thesis by simp
    next
      case False
      then have "0 \<le> p + c" "p + c < c" using \<open>p < 0\<close> by simp_all
      then have "(p + c) mod c = p + c" by (rule mod_pos_pos_trivial)
      moreover have "(p + c) mod c = p mod c" by (rule mod_add_self2)
      ultimately show ?thesis using False by simp
    qed
    ultimately show ?thesis using step True by simp
  qed
qed

lemma Index_valid:
  "0 < sz \<Longrightarrow> 0 < c \<Longrightarrow>
   Index i h sz c = Some (if h - i mod sz < 0 then (h - i mod sz) mod c else h - i mod sz)"
  by (simp add: Index_def Let_def go_rem_fold Index_loop_pos)

lemma Index_inv:
  assumes "0 < sz" "sz \<le> c" "0 \<le> h" "h < c"
  shows "Index i h sz c = Some ((h - i mod sz) mod c)"
proof -
  have r: "0 \<le> i mod sz" "i mod sz < sz" using assms by simp_all
  have "0 \<le> h - i mod sz \<Longrightarrow> (h - i mod sz) mod c = h - i mod sz"
    using assms r by simp
  then show ?thesis using assms by (simp add: Index_valid)
qed

section \<open>The contract of Index\<close>

text \<open>
  Claim C3. \<^verbatim>\<open>Index(i, head, size, capacity)\<close> returns \<open>-1\<close> when \<open>size = 0\<close>.
  Otherwise, for every integer \<open>i\<close> and every valid state (\<open>0 \<le> head < capacity\<close>,
  \<open>0 < size \<le> capacity\<close>), the offset \<open>r\<close> obtained from \<open>i\<close> by Go's remainder
  and then adding \<open>size\<close> when negative lies in \<open>[0, size)\<close> and is \<open>i mod size\<close>,
  and the function returns \<open>head - r\<close> folded into \<open>[0, capacity)\<close>. The test vector
  of the package for capacity 10, size 5, head 5 holds.
\<close>

theorem Index_contract:
  "Index i h 0 capacity = Some (- 1) \<and>
   (0 \<le> h \<and> h < capacity \<and> 0 < sz \<and> sz \<le> capacity \<longrightarrow>
      (let r = (if go_rem i sz < 0 then go_rem i sz + sz else go_rem i sz)
       in 0 \<le> r \<and> r < sz \<and> r = i mod sz \<and>
          Index i h sz capacity = Some ((h - r) mod capacity) \<and>
          0 \<le> (h - r) mod capacity \<and> (h - r) mod capacity < capacity)) \<and>
   Index 0 5 5 10 = Some 5 \<and> Index 1 5 5 10 = Some 4 \<and> Index 4 5 5 10 = Some 1 \<and>
   Index (- 1) 5 5 10 = Some 1 \<and> Index (- 2) 5 5 10 = Some 2 \<and>
   Index 5 5 5 10 = Some 5 \<and> Index (- 51) 5 5 10 = Some 1"
proof -
  have zero: "Index i h 0 capacity = Some (- 1)"
    by (simp add: Index_def)
  have valid: "0 \<le> h \<and> h < capacity \<and> 0 < sz \<and> sz \<le> capacity \<longrightarrow>
      (let r = (if go_rem i sz < 0 then go_rem i sz + sz else go_rem i sz)
       in 0 \<le> r \<and> r < sz \<and> r = i mod sz \<and>
          Index i h sz capacity = Some ((h - r) mod capacity) \<and>
          0 \<le> (h - r) mod capacity \<and> (h - r) mod capacity < capacity)"
  proof
    assume a: "0 \<le> h \<and> h < capacity \<and> 0 < sz \<and> sz \<le> capacity"
    then have c: "0 < capacity" by simp
    have r: "(if go_rem i sz < 0 then go_rem i sz + sz else go_rem i sz) = i mod sz"
      using a by (simp only: go_rem_fold)
    have "Index i h sz capacity = Some ((h - i mod sz) mod capacity)"
      using a by (simp add: Index_inv)
    then show "let r = (if go_rem i sz < 0 then go_rem i sz + sz else go_rem i sz)
       in 0 \<le> r \<and> r < sz \<and> r = i mod sz \<and>
          Index i h sz capacity = Some ((h - r) mod capacity) \<and>
          0 \<le> (h - r) mod capacity \<and> (h - r) mod capacity < capacity"
      unfolding Let_def r using a c by simp
  qed
  have vec: "Index 0 5 5 10 = Some 5" "Index 1 5 5 10 = Some 4" "Index 4 5 5 10 = Some 1"
    "Index (- 1) 5 5 10 = Some 1" "Index (- 2) 5 5 10 = Some 2"
    "Index 5 5 5 10 = Some 5" "Index (- 51) 5 5 10 = Some 1"
    by (simp_all add: Index_def go_rem_def Index_loop.simps)
  from zero valid vec show ?thesis by (simp only: simp_thms)
qed

theorem Index_contract_witness:
  "(0::int) \<le> 2 \<and> (2::int) < 10 \<and> (0::int) < 5 \<and> (5::int) \<le> 10 \<and>
   go_rem (- 51) 5 = - 1 \<and> Index (- 51) 2 5 10 = Some 8 \<and> Index (- 51) 2 0 10 = Some (- 1)"
  using Index_contract [of "- 51" 2 10 5] by (simp add: go_rem_def Let_def)

section \<open>Add and the loop of AddAll\<close>

lemma Add_full: "int (length (buf b)) \<le> size_r b \<Longrightarrow> Add b v = Inr (Some FullError, b)"
  by (simp add: Add_def)

lemma Add_ok:
  assumes "size_r b < int (length (buf b))" "0 \<le> size_r b"
  shows "Add b v = Inr (None, b\<lparr>buf := (buf b)[nat ((head b + 1) mod int (length (buf b))) := v],
                                 head := (head b + 1) mod int (length (buf b)),
                                 size_r := size_r b + 1\<rparr>)"
proof -
  let ?c = "int (length (buf b))"
  have c: "0 < ?c" using assms by linarith
  have n: "Next 1 (head b) ?c = Inr ((head b + 1) mod ?c)"
    using c by (simp add: Next_mod)
  have r: "0 \<le> (head b + 1) mod ?c" "(head b + 1) mod ?c < ?c"
    using c by simp_all
  show ?thesis
    using assms n r by (simp add: Add_def store_def)
qed

lemma Add_seq_append:
  "Add_seq b (xs @ ys) =
     (case Add_seq b xs of Inl f \<Rightarrow> Inl f
      | Inr (Some e, b') \<Rightarrow> Inr (Some e, b')
      | Inr (None, b') \<Rightarrow> Add_seq b' ys)"
  by (induction xs arbitrary: b) (auto split: sum.splits option.splits prod.splits)

lemma Add_seq_run:
  assumes "xs \<noteq> []" "(head b + 1) mod int (length (buf b)) = int p"
    "p + length xs \<le> length (buf b)" "size_r b + int (length xs) \<le> int (length (buf b))"
    "0 \<le> size_r b"
  shows "Add_seq b xs =
     Inr (None, b\<lparr>buf := take p (buf b) @ xs @ drop (p + length xs) (buf b),
                   head := int p + int (length xs) - 1,
                   size_r := size_r b + int (length xs)\<rparr>)"
  using assms
proof (induction xs arbitrary: b p)
  case Nil
  then show ?case by simp
next
  case (Cons x xs)
  let ?c = "int (length (buf b))"
  let ?b1 = "b\<lparr>buf := (buf b)[p := x], head := int p, size_r := size_r b + 1\<rparr>"
  have plt: "p < length (buf b)" using Cons.prems by simp
  have a: "Add b x = Inr (None, ?b1)"
    using Cons.prems by (simp add: Add_ok)
  show ?case
  proof (cases "xs = []")
    case True
    then show ?thesis using a plt by (simp add: upd_conv_take_nth_drop)
  next
    case False
    have p1: "(head ?b1 + 1) mod int (length (buf ?b1)) = int (Suc p)"
      using Cons.prems False by (cases xs) simp_all
    have "Add_seq ?b1 xs = Inr (None, ?b1\<lparr>buf := take (Suc p) (buf ?b1) @ xs @ drop (Suc p + length xs) (buf ?b1),
                   head := int (Suc p) + int (length xs) - 1,
                   size_r := size_r ?b1 + int (length xs)\<rparr>)"
      using Cons.prems False p1 by (intro Cons.IH) simp_all
    then show ?thesis using a plt by (simp add: take_Suc_conv_app_nth)
  qed
qed


lemma AddAll_step_ok:
  assumes inv: "ring_inv b" and ne: "vals \<noteq> []"
    and fit: "size_r b + int (length vals) \<le> int (length (buf b))"
  defines "p \<equiv> nat ((head b + 1) mod int (length (buf b)))"
  defines "n \<equiv> min (length (buf b) - p) (length vals)"
  shows "0 < n \<and> p + n \<le> length (buf b) \<and>
         AddAll_step b vals =
           Inr (b\<lparr>buf := take p (buf b) @ take n vals @ drop (p + n) (buf b),
                   head := int p + int n - 1,
                   size_r := size_r b + int n\<rparr>, drop n vals)"
proof -
  let ?c = "int (length (buf b))"
  have sz: "0 \<le> size_r b" using inv by (simp add: ring_inv_def)
  have l: "0 < int (length vals)" using ne by simp
  have c: "0 < ?c" using sz fit l by linarith
  have hd: "- 1 \<le> head b" "head b < ?c"
    using inv c by (auto simp: ring_inv_def)
  have pr: "0 \<le> (head b + 1) mod ?c" "(head b + 1) mod ?c < ?c"
    using c by simp_all
  have pint: "int p = (head b + 1) mod ?c" using pr by (simp add: p_def)
  have plt: "p < length (buf b)" using pr pint by linarith
  have n0: "0 < n" using plt ne by (simp add: n_def)
  have pn: "p + n \<le> length (buf b)" using plt by (simp add: n_def)
  have nx: "Next 1 (head b) ?c = Inr (int p)"
    using c pint by (simp add: Next_mod)
  have sl: "slice_from (buf b) (int p) = Inr (drop p (buf b))"
    using plt by (simp add: slice_from_def)
  have cp: "copy_go (drop p (buf b)) vals = (take n vals @ drop (p + n) (buf b), n)"
    by (simp add: copy_go_def n_def Let_def add.commute)
  have hn: "(head b + int n) mod ?c = int p + int n - 1"
  proof (cases "head b + 1 < ?c")
    case True
    then have "int p = head b + 1" using hd pint by simp
    moreover have "0 \<le> head b + int n" "head b + int n < ?c"
      using hd n0 pn calculation by linarith+
    ultimately show ?thesis by simp
  next
    case False
    then have h: "head b = ?c - 1" using hd by simp
    then have p0: "p = 0" using pint by simp
    have "(?c - 1 + int n) mod ?c = (int n - 1) mod ?c"
      by (metis add.commute add_diff_eq diff_add_eq mod_add_self2)
    moreover have "0 \<le> int n - 1" "int n - 1 < ?c" using n0 pn by linarith+
    ultimately show ?thesis using h p0 by simp
  qed
  have nn: "Next (int n) (head b) ?c = Inr (int p + int n - 1)"
    using c hn by (simp add: Next_mod)
  have "AddAll_step b vals =
           Inr (b\<lparr>buf := take p (buf b) @ take n vals @ drop (p + n) (buf b),
                   head := int p + int n - 1,
                   size_r := size_r b + int n\<rparr>, drop n vals)"
    using nx sl cp nn n0 by (simp add: AddAll_step_def)
  with n0 pn show ?thesis by simp
qed


lemma AddAll_step_props:
  assumes inv: "ring_inv b" and ne: "vals \<noteq> []"
    and fit: "size_r b + int (length vals) \<le> int (length (buf b))"
  shows "\<exists>b1 n. 0 < n \<and> n \<le> length vals \<and>
           AddAll_step b vals = Inr (b1, drop n vals) \<and>
           Add_seq b (take n vals) = Inr (None, b1) \<and>
           ring_inv b1 \<and> size_r b1 = size_r b + int n \<and>
           length (buf b1) = length (buf b) \<and>
           (n < length vals \<longrightarrow> head b1 = int (length (buf b)) - 1)"
proof -
  let ?c = "int (length (buf b))"
  define p where "p = nat ((head b + 1) mod ?c)"
  define n where "n = min (length (buf b) - p) (length vals)"
  define b1 where "b1 = b\<lparr>buf := take p (buf b) @ take n vals @ drop (p + n) (buf b),
                   head := int p + int n - 1, size_r := size_r b + int n\<rparr>"
  have ok: "0 < n" "p + n \<le> length (buf b)" "AddAll_step b vals = Inr (b1, drop n vals)"
    using AddAll_step_ok [OF inv ne fit] by (simp_all add: p_def n_def b1_def)
  have sz: "0 \<le> size_r b" using inv by (simp add: ring_inv_def)
  have c: "0 < ?c" using ok by linarith
  have pint: "int p = (head b + 1) mod ?c" using c by (simp add: p_def)
  have nle: "n \<le> length vals" by (simp add: n_def)
  have ln: "length (take n vals) = n" using nle by simp
  have seq: "Add_seq b (take n vals) = Inr (None, b1)"
  proof -
    have "Add_seq b (take n vals) =
       Inr (None, b\<lparr>buf := take p (buf b) @ take n vals @ drop (p + length (take n vals)) (buf b),
                   head := int p + int (length (take n vals)) - 1,
                   size_r := size_r b + int (length (take n vals))\<rparr>)"
    proof (rule Add_seq_run)
      show "take n vals \<noteq> []" using ok(1) ne by (cases vals) simp_all
      show "(head b + 1) mod ?c = int p" using pint by simp
      show "p + length (take n vals) \<le> length (buf b)" using ok(2) ln by simp
      show "size_r b + int (length (take n vals)) \<le> ?c" using fit nle ln by linarith
      show "0 \<le> size_r b" by (rule sz)
    qed
    then show ?thesis by (simp only: ln b1_def)
  qed
  have len1: "length (buf b1) = length (buf b)"
    using ok(2) nle by (simp add: b1_def)
  have inv1: "ring_inv b1"
    using sz ok fit nle len1 by (simp add: ring_inv_def) (simp add: b1_def)
  have last: "n < length vals \<longrightarrow> head b1 = ?c - 1"
  proof
    assume "n < length vals"
    then have "n = length (buf b) - p" by (simp add: n_def)
    then show "head b1 = ?c - 1" using ok(2) by (simp add: b1_def)
  qed
  have "size_r b1 = size_r b + int n" by (simp add: b1_def)
  with ok nle seq inv1 len1 last show ?thesis by blast
qed

lemma AddAll_loop_Add_seq:
  "ring_inv b \<Longrightarrow> size_r b + int (length vals) \<le> int (length (buf b)) \<Longrightarrow>
   \<exists>b'. AddAll_loop b vals = Inr b' \<and> Add_seq b vals = Inr (None, b')"
proof (induction "length vals" arbitrary: b vals rule: less_induct)
  case less
  show ?case
  proof (cases "vals = []")
    case True
    then show ?thesis by simp
  next
    case False
    from AddAll_step_props [OF less.prems(1) False less.prems(2)]
    obtain b1 n where st: "0 < n" "n \<le> length vals"
      "AddAll_step b vals = Inr (b1, drop n vals)"
      "Add_seq b (take n vals) = Inr (None, b1)"
      "ring_inv b1" "size_r b1 = size_r b + int n" "length (buf b1) = length (buf b)"
      by blast
    have shorter: "length (drop n vals) < length vals" using st(1) False by simp
    have fit1: "size_r b1 + int (length (drop n vals)) \<le> int (length (buf b1))"
      using st(2,6,7) less.prems(2) by simp
    from less.hyps [OF shorter st(5) fit1]
    obtain b' where r: "AddAll_loop b1 (drop n vals) = Inr b'"
      "Add_seq b1 (drop n vals) = Inr (None, b')" by blast
    have "AddAll_loop b vals = Inr b'"
      using False st(3) r(1) by (subst AddAll_loop.simps) simp
    moreover have "Add_seq b (take n vals @ drop n vals) = Inr (None, b')"
      using st(4) r(2) by (simp only: Add_seq_append) simp
    ultimately show ?thesis by simp
  qed
qed

lemma AddAll_two_spans:
  assumes inv: "ring_inv b" and ne: "vals \<noteq> []"
    and fit: "size_r b + int (length vals) \<le> int (length (buf b))"
  shows "\<exists>b1 v1. AddAll_step b vals = Inr (b1, v1) \<and>
           (v1 = [] \<or> (\<exists>b2. AddAll_step b1 v1 = Inr (b2, [])))"
proof -
  from AddAll_step_props [OF inv ne fit]
  obtain b1 n where st: "0 < n" "n \<le> length vals"
      "AddAll_step b vals = Inr (b1, drop n vals)"
      "ring_inv b1" "size_r b1 = size_r b + int n" "length (buf b1) = length (buf b)"
      "n < length vals \<longrightarrow> head b1 = int (length (buf b)) - 1"
    by blast
  show ?thesis
  proof (cases "n < length vals")
    case False
    then show ?thesis using st(2,3) by simp
  next
    case True
    let ?v1 = "drop n vals"
    have ne1: "?v1 \<noteq> []" using True by simp
    have fit1: "size_r b1 + int (length ?v1) \<le> int (length (buf b1))"
      using st(2,5,6) fit by simp
    have h1: "head b1 = int (length (buf b1)) - 1" using True st(6,7) by simp
    have sz1: "0 \<le> size_r b1" using st(4) by (simp add: ring_inv_def)
    have p1: "nat ((head b1 + 1) mod int (length (buf b1))) = 0" using h1 by simp
    have n1: "min (length (buf b1) - 0) (length ?v1) = length ?v1"
      using fit1 sz1 by simp
    from AddAll_step_ok [OF st(4) ne1 fit1]
    have "\<exists>b2. AddAll_step b1 ?v1 = Inr (b2, drop (length ?v1) ?v1)"
      unfolding p1 n1 by blast
    then show ?thesis using st(3) by simp
  qed
qed

section \<open>The contract of AddAll\<close>

lemma Add_seq_size:
  "Add_seq b vals = Inr (None, b') \<Longrightarrow>
   size_r b' = size_r b + int (length vals) \<and> length (buf b') = length (buf b)"
proof (induction vals arbitrary: b)
  case Nil
  then show ?case by simp
next
  case (Cons v vals)
  then obtain b1 where a: "Add b v = Inr (None, b1)" and r: "Add_seq b1 vals = Inr (None, b')"
    by (auto split: sum.splits option.splits prod.splits)
  from a have "size_r b1 = size_r b + 1 \<and> length (buf b1) = length (buf b)"
    by (auto simp: Add_def store_def split: if_splits sum.splits)
  with Cons.IH [OF r] show ?case by simp
qed

text \<open>
  Claim C4. In every state that satisfies the ring invariant (every reachable state
  does, see \<open>run_inv\<close>), for every sequence of values with
  \<open>size + n \<le> capacity\<close>, \<^verbatim>\<open>AddAll\<close> succeeds and ends in the very ring
  that the sequential calls \<^verbatim>\<open>Add(v1); ...; Add(vn)\<close> end in, so \<^verbatim>\<open>Size\<close> and
  every \<^verbatim>\<open>Get(i)\<close> agree; the size has grown by \<open>n\<close>; and the loop makes at
  most two passes, each of them one \<^verbatim>\<open>copy\<close> into a contiguous span.
\<close>

theorem AddAll_refines_Add_seq:
  assumes "ring_inv b" and "size_r b + int (length vals) \<le> int (length (buf b))"
  shows "\<exists>b'. AddAll b vals = Inr (None, b') \<and> Add_seq b vals = Inr (None, b') \<and>
           Size b' = Size b + int (length vals) \<and>
           (vals = [] \<or>
            (\<exists>b1 v1. AddAll_step b vals = Inr (b1, v1) \<and>
               (v1 = [] \<or> (\<exists>b2. AddAll_step b1 v1 = Inr (b2, [])))))"
proof -
  from AddAll_loop_Add_seq [OF assms]
  obtain b' where r: "AddAll_loop b vals = Inr b'" "Add_seq b vals = Inr (None, b')"
    by blast
  have a: "AddAll b vals = Inr (None, b')"
    using assms(2) r(1) by (simp add: AddAll_def)
  have s: "Size b' = Size b + int (length vals)"
    using Add_seq_size [OF r(2)] by (simp add: Size_def)
  have t: "vals = [] \<or>
            (\<exists>b1 v1. AddAll_step b vals = Inr (b1, v1) \<and>
               (v1 = [] \<or> (\<exists>b2. AddAll_step b1 v1 = Inr (b2, []))))"
    using AddAll_two_spans [OF assms(1) _ assms(2)] by blast
  from a r(2) s t show ?thesis by blast
qed

theorem AddAll_refines_Add_seq_witness:
  "ring_inv \<lparr>head = 2, size_r = 1, buf = [Some (1::int), Some 2, Some 3, None]\<rparr> \<and>
   AddAll \<lparr>head = 2, size_r = 1, buf = [Some (1::int), Some 2, Some 3, None]\<rparr> [Some 7, Some 8, Some 9]
     = Inr (None, \<lparr>head = 1, size_r = 4, buf = [Some 8, Some 9, Some 3, Some 7]\<rparr>) \<and>
   Add_seq \<lparr>head = 2, size_r = 1, buf = [Some (1::int), Some 2, Some 3, None]\<rparr> [Some 7, Some 8, Some 9]
     = Inr (None, \<lparr>head = 1, size_r = 4, buf = [Some 8, Some 9, Some 3, Some 7]\<rparr>) \<and>
   AddAll_step \<lparr>head = 2, size_r = 1, buf = [Some (1::int), Some 2, Some 3, None]\<rparr> [Some 7, Some 8, Some 9]
     = Inr (\<lparr>head = 3, size_r = 2, buf = [Some 1, Some 2, Some 3, Some 7]\<rparr>, [Some 8, Some 9]) \<and>
   AddAll_step \<lparr>head = 3, size_r = 2, buf = [Some (1::int), Some 2, Some 3, Some 7]\<rparr> [Some 8, Some 9]
     = Inr (\<lparr>head = 1, size_r = 4, buf = [Some 8, Some 9, Some 3, Some 7]\<rparr>, [])"
  using AddAll_refines_Add_seq [of "\<lparr>head = 2, size_r = 1, buf = [Some (1::int), Some 2, Some 3, None]\<rparr>"
      "[Some 7, Some 8, Some 9]"]
  by (simp add: ring_inv_def AddAll_def AddAll_step_def Add_def Next_def go_rem_def
      slice_from_def copy_go_def store_def Let_def)

text \<open>
  Claim C5. In every state and for every sequence of values, if
  \<open>size + len(values) > capacity\<close> then \<^verbatim>\<open>AddAll\<close> returns \<^verbatim>\<open>FullError\<close> and
  the ring is the one it was called on: head, size and buffer, hence every
  \<^verbatim>\<open>Get(i)\<close>, are unchanged. \<^verbatim>\<open>New(3)\<close> followed by \<^verbatim>\<open>AddAll(0,1,2,3)\<close> fails
  with \<^verbatim>\<open>FullError\<close> and leaves the size 0.
\<close>

theorem AddAll_all_or_nothing:
  "(int (length (buf b)) < size_r b + int (length vals) \<longrightarrow>
      AddAll b vals = Inr (Some FullError, b)) \<and>
   (\<exists>b0. New 3 = Inr b0 \<and>
      AddAll b0 [Some (0::int), Some 1, Some 2, Some 3] = Inr (Some FullError, b0) \<and>
      Size b0 = 0)"
  by (simp add: AddAll_def New_def Size_def)

theorem AddAll_all_or_nothing_witness:
  "int (length (buf \<lparr>head = 1, size_r = 2, buf = [Some (4::int), Some 5, None]\<rparr>))
     < size_r \<lparr>head = 1, size_r = 2, buf = [Some (4::int), Some 5, None]\<rparr> + int (length [Some (6::int), Some 7]) \<and>
   AddAll \<lparr>head = 1, size_r = 2, buf = [Some (4::int), Some 5, None]\<rparr> [Some 6, Some 7]
     = Inr (Some FullError, \<lparr>head = 1, size_r = 2, buf = [Some 4, Some 5, None]\<rparr>)"
  using AddAll_all_or_nothing [of "\<lparr>head = 1, size_r = 2, buf = [Some (4::int), Some 5, None]\<rparr>"
      "[Some 6, Some 7]"]
  by simp

text \<open>
  Claim C6. In every state that satisfies the ring invariant and for every sequence of
  values that passes the check \<open>size + len(values) \<le> capacity\<close>, \<^verbatim>\<open>AddAll\<close>
  returns without error, so it does not reach \<^verbatim>\<open>panic(FullError)\<close>. Each pass
  through the loop body copies at least one value and hands on a ring and a rest of the
  values that satisfy the same two conditions, so the same holds of every later pass.
\<close>

theorem AddAll_copy_progress:
  assumes "ring_inv b" and "size_r b + int (length vals) \<le> int (length (buf b))"
  shows "(\<exists>b'. AddAll b vals = Inr (None, b')) \<and>
         AddAll b vals \<noteq> Inl PanicFullError \<and>
         (vals \<noteq> [] \<longrightarrow>
            (\<exists>b1 v1. AddAll_step b vals = Inr (b1, v1) \<and> length v1 < length vals \<and>
               ring_inv b1 \<and> size_r b1 + int (length v1) \<le> int (length (buf b1))))"
proof -
  from AddAll_loop_Add_seq [OF assms]
  obtain b' where r: "AddAll_loop b vals = Inr b'" by blast
  have a: "AddAll b vals = Inr (None, b')"
    using assms(2) r by (simp add: AddAll_def)
  have st: "vals \<noteq> [] \<longrightarrow>
            (\<exists>b1 v1. AddAll_step b vals = Inr (b1, v1) \<and> length v1 < length vals \<and>
               ring_inv b1 \<and> size_r b1 + int (length v1) \<le> int (length (buf b1)))"
  proof
    assume ne: "vals \<noteq> []"
    from AddAll_step_props [OF assms(1) ne assms(2)]
    obtain b1 n where st: "0 < n" "n \<le> length vals"
      "AddAll_step b vals = Inr (b1, drop n vals)"
      "ring_inv b1" "size_r b1 = size_r b + int n" "length (buf b1) = length (buf b)"
      by blast
    have "length (drop n vals) < length vals" using st(1) ne by simp
    moreover have "size_r b1 + int (length (drop n vals)) \<le> int (length (buf b1))"
      using st(2,5,6) assms(2) by simp
    ultimately show "\<exists>b1 v1. AddAll_step b vals = Inr (b1, v1) \<and> length v1 < length vals \<and>
               ring_inv b1 \<and> size_r b1 + int (length v1) \<le> int (length (buf b1))"
      using st(3,4) by blast
  qed
  from a st show ?thesis by simp
qed

theorem AddAll_copy_progress_witness:
  "ring_inv \<lparr>head = 0, size_r = 1, buf = [Some (1::int), None, None]\<rparr> \<and>
   AddAll \<lparr>head = 0, size_r = 1, buf = [Some (1::int), None, None]\<rparr> [Some 2, Some 3]
     = Inr (None, \<lparr>head = 2, size_r = 3, buf = [Some 1, Some 2, Some 3]\<rparr>) \<and>
   AddAll_step \<lparr>head = 0, size_r = 1, buf = [Some (1::int), None, None]\<rparr> [Some 2, Some 3]
     = Inr (\<lparr>head = 2, size_r = 3, buf = [Some 1, Some 2, Some 3]\<rparr>, [])"
  using AddAll_copy_progress [of "\<lparr>head = 0, size_r = 1, buf = [Some (1::int), None, None]\<rparr>"
      "[Some 2, Some 3]"]
  by (simp add: ring_inv_def AddAll_def AddAll_step_def Next_def go_rem_def
      slice_from_def copy_go_def Let_def)

section \<open>Add, Push and Remove\<close>

lemma Get_valid:
  assumes "0 < size_r b" "size_r b \<le> int (length (buf b))" "0 \<le> head b"
    "head b < int (length (buf b))"
  shows "Get b i = Inr (Inr (buf b ! nat ((head b - i mod size_r b) mod int (length (buf b)))))"
proof -
  let ?c = "int (length (buf b))"
  have c: "0 < ?c" using assms by linarith
  have ix: "Index i (head b) (size_r b) ?c = Some ((head b - i mod size_r b) mod ?c)"
    using assms by (simp add: Index_inv)
  have r: "0 \<le> (head b - i mod size_r b) mod ?c" "(head b - i mod size_r b) mod ?c < ?c"
    using c by simp_all
  show ?thesis using assms(1) ix r by (simp add: Get_def load_def)
qed

lemma mod_slot_distinct:
  fixes c :: int
  assumes "0 < k" "k < c"
  shows "(h - k) mod c \<noteq> h mod c"
proof
  assume "(h - k) mod c = h mod c"
  then have "c dvd (h - k) - h" by (simp only: mod_eq_dvd_iff)
  then have "c dvd k" by simp
  with assms show False by (simp add: zdvd_not_zless)
qed

text \<open>
  Claim C7. In every state that satisfies the ring invariant, \<^verbatim>\<open>Add(val)\<close> returns
  \<^verbatim>\<open>FullError\<close> and leaves the ring as it was exactly when \<open>size = capacity\<close>.
  Otherwise it returns no error, the new head is \<^verbatim>\<open>Next(1, head, capacity)\<close>, that
  is \<open>(head + 1) mod capacity\<close>, \<open>val\<close> is stored in that slot and nowhere else,
  the size grows by one, \<^verbatim>\<open>Get(0)\<close> is \<open>val\<close>, and nothing is evicted: the
  element that was at offset \<open>i\<close> is now at offset \<open>i + 1\<close>. After \<^verbatim>\<open>New(10)\<close>
  and the ten calls \<^verbatim>\<open>Add(0)\<close>, ..., \<^verbatim>\<open>Add(9)\<close>, size and capacity are 10,
  \<^verbatim>\<open>Get(0)\<close> is 9 and \<^verbatim>\<open>Get(9)\<close> is 0.
\<close>

theorem Add_contract:
  assumes "ring_inv b"
  shows "(size_r b = int (length (buf b)) \<longrightarrow> Add b v = Inr (Some FullError, b)) \<and>
         (size_r b \<noteq> int (length (buf b)) \<longrightarrow>
            (\<exists>b'. Add b v = Inr (None, b') \<and>
               Next 1 (head b) (Capacity b) = Inr (head b') \<and>
               head b' = (head b + 1) mod Capacity b \<and>
               buf b' = (buf b)[nat (head b') := v] \<and>
               Size b' = Size b + 1 \<and>
               Get b' 0 = Inr (Inr v) \<and>
               (\<forall>i. 0 \<le> i \<and> i < Size b \<longrightarrow> Get b' (i + 1) = Get b i))) \<and>
         (\<exists>b0 b10. New 10 = Inr b0 \<and>
            Add_seq b0 [Some (0::int), Some 1, Some 2, Some 3, Some 4,
                        Some 5, Some 6, Some 7, Some 8, Some 9] = Inr (None, b10) \<and>
            Size b10 = 10 \<and> Capacity b10 = 10 \<and>
            Get b10 0 = Inr (Inr (Some 9)) \<and> Get b10 9 = Inr (Inr (Some 0)))"
proof -
  let ?c = "int (length (buf b))"
  have full: "size_r b = ?c \<longrightarrow> Add b v = Inr (Some FullError, b)"
    by (simp add: Add_full)
  have room: "size_r b \<noteq> ?c \<longrightarrow>
            (\<exists>b'. Add b v = Inr (None, b') \<and>
               Next 1 (head b) (Capacity b) = Inr (head b') \<and>
               head b' = (head b + 1) mod Capacity b \<and>
               buf b' = (buf b)[nat (head b') := v] \<and>
               Size b' = Size b + 1 \<and>
               Get b' 0 = Inr (Inr v) \<and>
               (\<forall>i. 0 \<le> i \<and> i < Size b \<longrightarrow> Get b' (i + 1) = Get b i))"
  proof
    assume "size_r b \<noteq> ?c"
    then have lt: "size_r b < ?c" and sz: "0 \<le> size_r b"
      using assms by (simp_all add: ring_inv_def)
    have c: "0 < ?c" using lt sz by linarith
    define h' where "h' = (head b + 1) mod ?c"
    define b' where "b' = b\<lparr>buf := (buf b)[nat h' := v], head := h', size_r := size_r b + 1\<rparr>"
    have a: "Add b v = Inr (None, b')"
      using Add_ok [OF lt sz] by (simp add: b'_def h'_def)
    have hr: "0 \<le> h'" "h' < ?c" using c by (simp_all add: h'_def)
    have nx: "Next 1 (head b) (Capacity b) = Inr (head b')"
      using c by (simp add: Next_mod Capacity_def b'_def h'_def)
    have g: "Get b' i = Inr (Inr (buf b' ! nat ((h' - i mod (size_r b + 1)) mod ?c)))" for i
      using Get_valid [of b' i] sz lt hr by (simp add: b'_def)
    have g0: "Get b' 0 = Inr (Inr v)"
      using g [of 0] hr by (simp add: b'_def)
    have keep: "Get b' (i + 1) = Get b i" if i: "0 \<le> i \<and> i < Size b" for i
    proof -
      have i0: "0 \<le> i" and il: "i < size_r b" using i by (simp_all add: Size_def)
      have pos: "0 < size_r b" using i0 il by linarith
      have hb: "0 \<le> head b" "head b < ?c" using assms pos by (simp_all add: ring_inv_def)
      have m1: "(i + 1) mod (size_r b + 1) = i + 1" using i0 il by simp
      have m2: "i mod size_r b = i" using i0 il by simp
      have e: "(h' - (i + 1)) mod ?c = (head b - i) mod ?c"
      proof -
        have "(h' - (i + 1)) mod ?c = ((head b + 1) - (i + 1)) mod ?c"
          unfolding h'_def by (rule mod_diff_left_eq)
        then show ?thesis by simp
      qed
      have ne: "(head b - i) mod ?c \<noteq> h'"
      proof -
        have "(head b + 1 - (i + 1)) mod ?c \<noteq> (head b + 1) mod ?c"
          using i0 il lt by (intro mod_slot_distinct) linarith+
        then show ?thesis by (simp add: h'_def)
      qed
      have r: "0 \<le> (head b - i) mod ?c" "(head b - i) mod ?c < ?c" using c by simp_all
      have ne': "nat ((head b - i) mod ?c) \<noteq> nat h'" using ne r hr by linarith
      have "Get b' (i + 1) = Inr (Inr (buf b' ! nat ((head b - i) mod ?c)))"
        using g [of "i + 1"] m1 e by simp
      also have "buf b' ! nat ((head b - i) mod ?c) = buf b ! nat ((head b - i) mod ?c)"
        using ne' by (simp add: b'_def)
      also have "Inr (Inr (buf b ! nat ((head b - i) mod ?c))) = Get b i"
        using Get_valid [of b i] pos hb assms m2 by (simp add: ring_inv_def)
      finally show ?thesis .
    qed
    have "Add b v = Inr (None, b') \<and>
               Next 1 (head b) (Capacity b) = Inr (head b') \<and>
               head b' = (head b + 1) mod Capacity b \<and>
               buf b' = (buf b)[nat (head b') := v] \<and>
               Size b' = Size b + 1 \<and>
               Get b' 0 = Inr (Inr v) \<and>
               (\<forall>i. 0 \<le> i \<and> i < Size b \<longrightarrow> Get b' (i + 1) = Get b i)"
      using a nx g0 keep by (simp add: b'_def h'_def Capacity_def Size_def)
    then show "\<exists>b'. Add b v = Inr (None, b') \<and>
               Next 1 (head b) (Capacity b) = Inr (head b') \<and>
               head b' = (head b + 1) mod Capacity b \<and>
               buf b' = (buf b)[nat (head b') := v] \<and>
               Size b' = Size b + 1 \<and>
               Get b' 0 = Inr (Inr v) \<and>
               (\<forall>i. 0 \<le> i \<and> i < Size b \<longrightarrow> Get b' (i + 1) = Get b i)" ..
  qed
  have vec: "\<exists>b0 b10. New 10 = Inr b0 \<and>
            Add_seq b0 [Some (0::int), Some 1, Some 2, Some 3, Some 4,
                        Some 5, Some 6, Some 7, Some 8, Some 9] = Inr (None, b10) \<and>
            Size b10 = 10 \<and> Capacity b10 = 10 \<and>
            Get b10 0 = Inr (Inr (Some 9)) \<and> Get b10 9 = Inr (Inr (Some 0))"
    by (simp add: New_def Add_def Next_def go_rem_def store_def Size_def Capacity_def
        Get_def Index_def Index_loop.simps load_def Let_def eval_nat_numeral)
  from full room vec show ?thesis by (simp only: simp_thms)
qed


theorem Add_contract_witness:
  "ring_inv \<lparr>head = 1, size_r = 2, buf = [Some (4::int), Some 5, None]\<rparr> \<and>
   size_r \<lparr>head = 1, size_r = 2, buf = [Some (4::int), Some 5, None]\<rparr>
     \<noteq> int (length (buf \<lparr>head = 1, size_r = 2, buf = [Some (4::int), Some 5, None]\<rparr>)) \<and>
   Add \<lparr>head = 1, size_r = 2, buf = [Some (4::int), Some 5, None]\<rparr> (Some 6)
     = Inr (None, \<lparr>head = 2, size_r = 3, buf = [Some 4, Some 5, Some 6]\<rparr>) \<and>
   (0::int) \<le> 1 \<and> 1 < Size \<lparr>head = 1, size_r = 2, buf = [Some (4::int), Some 5, None]\<rparr> \<and>
   Get \<lparr>head = 2, size_r = 3, buf = [Some (4::int), Some 5, Some 6]\<rparr> (1 + 1)
     = Get \<lparr>head = 1, size_r = 2, buf = [Some (4::int), Some 5, None]\<rparr> 1 \<and>
   ring_inv \<lparr>head = 0, size_r = 2, buf = [Some (4::int), Some 5]\<rparr> \<and>
   size_r \<lparr>head = 0, size_r = 2, buf = [Some (4::int), Some 5]\<rparr>
     = int (length (buf \<lparr>head = 0, size_r = 2, buf = [Some (4::int), Some 5]\<rparr>)) \<and>
   Add \<lparr>head = 0, size_r = 2, buf = [Some (4::int), Some 5]\<rparr> (Some 6)
     = Inr (Some FullError, \<lparr>head = 0, size_r = 2, buf = [Some 4, Some 5]\<rparr>)"
  using Add_contract [of "\<lparr>head = 1, size_r = 2, buf = [Some (4::int), Some 5, None]\<rparr>" "Some 6"]
    Add_contract [of "\<lparr>head = 0, size_r = 2, buf = [Some (4::int), Some 5]\<rparr>" "Some 6"]
  by (simp add: ring_inv_def Add_def Next_def go_rem_def store_def Size_def
      Get_def Index_def Index_loop.simps load_def Let_def)

text \<open>
  Claim C8. In every state that satisfies the ring invariant, \<^verbatim>\<open>Push(value)\<close>
  returns and leaves size and capacity as they were. When the capacity or the size is 0
  the ring is unchanged. Otherwise the new head is \<^verbatim>\<open>Next(1, head, capacity)\<close>,
  \<open>value\<close> is stored in that slot and nowhere else, \<^verbatim>\<open>Get(0)\<close> is \<open>value\<close>,
  and \<^verbatim>\<open>Get(i)\<close> for \<open>1 \<le> i < size\<close> is what \<^verbatim>\<open>Get(i - 1)\<close> was; when
  \<open>size = capacity\<close> the slot written is the one that held the oldest element,
  \<^verbatim>\<open>Index(-1, head, size, capacity)\<close>, which is thereby discarded.
\<close>

theorem Push_contract:
  assumes "ring_inv b"
  shows "\<exists>b'. Push b v = Inr b' \<and> Size b' = Size b \<and> Capacity b' = Capacity b \<and>
           (Capacity b = 0 \<or> Size b = 0 \<longrightarrow> b' = b) \<and>
           (Capacity b \<noteq> 0 \<and> Size b \<noteq> 0 \<longrightarrow>
              Next 1 (head b) (Capacity b) = Inr (head b') \<and>
              head b' = (head b + 1) mod Capacity b \<and>
              buf b' = (buf b)[nat (head b') := v] \<and>
              Get b' 0 = Inr (Inr v) \<and>
              (\<forall>i. 1 \<le> i \<and> i < Size b \<longrightarrow> Get b' i = Get b (i - 1)) \<and>
              (Size b = Capacity b \<longrightarrow>
                 Index (- 1) (head b) (Size b) (Capacity b) = Some (head b')))"
proof (cases "length (buf b) = 0 \<or> size_r b = 0")
  case True
  then have "Push b v = Inr b" by (simp add: Push_def)
  with True show ?thesis by (auto simp: Capacity_def Size_def)
next
  case False
  let ?c = "int (length (buf b))"
  have c: "0 < ?c" using False by simp
  have pos: "0 < size_r b" and le: "size_r b \<le> ?c" and hb: "0 \<le> head b" "head b < ?c"
    using False assms by (auto simp: ring_inv_def)
  define h' where "h' = (head b + 1) mod ?c"
  define b' where "b' = b\<lparr>buf := (buf b)[nat h' := v], head := h'\<rparr>"
  have hr: "0 \<le> h'" "h' < ?c" using c by (simp_all add: h'_def)
  have nx: "Next 1 (head b) ?c = Inr h'" using c by (simp add: Next_mod h'_def)
  have p: "Push b v = Inr b'"
    using False nx hr by (simp add: Push_def store_def b'_def)
  have g: "Get b' i = Inr (Inr (buf b' ! nat ((h' - i mod size_r b) mod ?c)))" for i
    using Get_valid [of b' i] pos le hr by (simp add: b'_def)
  have g0: "Get b' 0 = Inr (Inr v)"
    using g [of 0] hr by (simp add: b'_def)
  have shift: "Get b' i = Get b (i - 1)" if i: "1 \<le> i \<and> i < Size b" for i
  proof -
    have i1: "1 \<le> i" and il: "i < size_r b" using i by (simp_all add: Size_def)
    have m1: "i mod size_r b = i" using i1 il by simp
    have m2: "(i - 1) mod size_r b = i - 1" using i1 il by simp
    have e: "(h' - i) mod ?c = (head b - (i - 1)) mod ?c"
    proof -
      have "(h' - i) mod ?c = ((head b + 1) - i) mod ?c"
        unfolding h'_def by (rule mod_diff_left_eq)
      then show ?thesis by (simp add: algebra_simps)
    qed
    have ne: "(head b - (i - 1)) mod ?c \<noteq> h'"
    proof -
      have "(head b + 1 - i) mod ?c \<noteq> (head b + 1) mod ?c"
        using i1 il le by (intro mod_slot_distinct) linarith+
      then show ?thesis by (simp add: h'_def algebra_simps)
    qed
    have r: "0 \<le> (head b - (i - 1)) mod ?c" "(head b - (i - 1)) mod ?c < ?c"
      using c by simp_all
    have ne': "nat ((head b - (i - 1)) mod ?c) \<noteq> nat h'" using ne r hr by linarith
    have "Get b' i = Inr (Inr (buf b' ! nat ((head b - (i - 1)) mod ?c)))"
      using g [of i] m1 e by simp
    also have "buf b' ! nat ((head b - (i - 1)) mod ?c) = buf b ! nat ((head b - (i - 1)) mod ?c)"
      using ne' by (simp add: b'_def)
    also have "Inr (Inr (buf b ! nat ((head b - (i - 1)) mod ?c))) = Get b (i - 1)"
      using Get_valid [of b "i - 1"] pos hb le m2 by simp
    finally show ?thesis .
  qed
  have oldest: "Index (- 1) (head b) (Size b) (Capacity b) = Some (head b')"
    if full: "Size b = Capacity b"
  proof -
    have sc: "size_r b = ?c" using full by (simp add: Size_def Capacity_def)
    have m: "(- 1) mod ?c = ?c - 1" using c by (simp add: zmod_minus1)
    have "Index (- 1) (head b) ?c ?c = Some ((head b - (- 1) mod ?c) mod ?c)"
      using c hb by (simp add: Index_inv)
    also have "(head b - (- 1) mod ?c) mod ?c = (head b + 1 - ?c) mod ?c"
      unfolding m by (simp add: algebra_simps)
    also have "\<dots> = (head b + 1) mod ?c" by simp
    finally show ?thesis using sc by (simp add: Size_def Capacity_def b'_def h'_def)
  qed
  have "Push b v = Inr b' \<and> Size b' = Size b \<and> Capacity b' = Capacity b \<and>
           (Capacity b = 0 \<or> Size b = 0 \<longrightarrow> b' = b) \<and>
           (Capacity b \<noteq> 0 \<and> Size b \<noteq> 0 \<longrightarrow>
              Next 1 (head b) (Capacity b) = Inr (head b') \<and>
              head b' = (head b + 1) mod Capacity b \<and>
              buf b' = (buf b)[nat (head b') := v] \<and>
              Get b' 0 = Inr (Inr v) \<and>
              (\<forall>i. 1 \<le> i \<and> i < Size b \<longrightarrow> Get b' i = Get b (i - 1)) \<and>
              (Size b = Capacity b \<longrightarrow>
                 Index (- 1) (head b) (Size b) (Capacity b) = Some (head b')))"
    using p nx g0 shift oldest False
    by (simp add: b'_def h'_def Capacity_def Size_def)
  then show ?thesis ..
qed


theorem Push_contract_witness:
  "ring_inv \<lparr>head = 0, size_r = 3, buf = [Some (3::int), Some 1, Some 2]\<rparr> \<and>
   Capacity \<lparr>head = 0, size_r = 3, buf = [Some (3::int), Some 1, Some 2]\<rparr> \<noteq> 0 \<and>
   Size \<lparr>head = 0, size_r = 3, buf = [Some (3::int), Some 1, Some 2]\<rparr> \<noteq> 0 \<and>
   Size \<lparr>head = 0, size_r = 3, buf = [Some (3::int), Some 1, Some 2]\<rparr>
     = Capacity \<lparr>head = 0, size_r = 3, buf = [Some (3::int), Some 1, Some 2]\<rparr> \<and>
   Push \<lparr>head = 0, size_r = 3, buf = [Some (3::int), Some 1, Some 2]\<rparr> (Some 9)
     = Inr \<lparr>head = 1, size_r = 3, buf = [Some 3, Some 9, Some 2]\<rparr> \<and>
   (1::int) \<le> 2 \<and> 2 < Size \<lparr>head = 0, size_r = 3, buf = [Some (3::int), Some 1, Some 2]\<rparr> \<and>
   Get \<lparr>head = 1, size_r = 3, buf = [Some (3::int), Some 9, Some 2]\<rparr> 2
     = Get \<lparr>head = 0, size_r = 3, buf = [Some (3::int), Some 1, Some 2]\<rparr> (2 - 1) \<and>
   ring_inv \<lparr>head = - 1, size_r = 0, buf = [None :: int option, None]\<rparr> \<and>
   Size \<lparr>head = - 1, size_r = 0, buf = [None :: int option, None]\<rparr> = 0 \<and>
   Push \<lparr>head = - 1, size_r = 0, buf = [None :: int option, None]\<rparr> (Some 9)
     = Inr \<lparr>head = - 1, size_r = 0, buf = [None, None]\<rparr>"
  using Push_contract [of "\<lparr>head = 0, size_r = 3, buf = [Some (3::int), Some 1, Some 2]\<rparr>" "Some 9"]
    Push_contract [of "\<lparr>head = - 1, size_r = 0, buf = [None :: int option, None]\<rparr>" "Some 9"]
  by (simp add: ring_inv_def Push_def Next_def go_rem_def store_def Size_def Capacity_def
      Get_def Index_def Index_loop.simps load_def Let_def)

text \<open>
  Claim C9. \<^verbatim>\<open>Remove(count)\<close> has no fallible step and returns for every integer
  \<open>count\<close>. In every state that satisfies the ring invariant: if \<open>count \<le> 0\<close> the
  ring is unchanged; if \<open>count \<ge> size\<close> the ring becomes empty, with size 0 and
  head \<open>-1\<close>; otherwise the size shrinks by exactly \<open>count\<close>, head and buffer are
  untouched and \<^verbatim>\<open>Get(i)\<close> is unchanged for \<open>0 \<le> i < size - count\<close>. After
  \<^verbatim>\<open>New(5)\<close>, \<^verbatim>\<open>AddAll(1,2,3)\<close> and \<^verbatim>\<open>Remove(2)\<close> the size is 1 and
  \<^verbatim>\<open>Get(-1)\<close> is 3.
\<close>

theorem Remove_contract:
  assumes "ring_inv b"
  shows "(count \<le> 0 \<longrightarrow> Remove b count = b) \<and>
         (Size b \<le> count \<longrightarrow> Size (Remove b count) = 0 \<and> head (Remove b count) = - 1) \<and>
         (0 < count \<and> count < Size b \<longrightarrow>
            Size (Remove b count) = Size b - count \<and>
            head (Remove b count) = head b \<and> buf (Remove b count) = buf b \<and>
            (\<forall>i. 0 \<le> i \<and> i < Size b - count \<longrightarrow> Get (Remove b count) i = Get b i)) \<and>
         (\<exists>b0 b3. New 5 = Inr b0 \<and>
            AddAll b0 [Some (1::int), Some 2, Some 3] = Inr (None, b3) \<and>
            Size (Remove b3 2) = 1 \<and> Get (Remove b3 2) (- 1) = Inr (Inr (Some 3)))"
proof -
  have noop: "count \<le> 0 \<longrightarrow> Remove b count = b"
    by (simp add: Remove_def)
  have empty: "Size b \<le> count \<longrightarrow> Size (Remove b count) = 0 \<and> head (Remove b count) = - 1"
    using assms by (auto simp: Remove_def Size_def ring_inv_def Let_def)
  have shrink: "0 < count \<and> count < Size b \<longrightarrow>
            Size (Remove b count) = Size b - count \<and>
            head (Remove b count) = head b \<and> buf (Remove b count) = buf b \<and>
            (\<forall>i. 0 \<le> i \<and> i < Size b - count \<longrightarrow> Get (Remove b count) i = Get b i)"
  proof
    assume a: "0 < count \<and> count < Size b"
    then have cp: "0 < count" and cl: "count < size_r b" by (simp_all add: Size_def)
    have r: "Remove b count = b\<lparr>size_r := size_r b - count\<rparr>"
      using cp cl by (simp add: Remove_def Let_def)
    have pos: "0 < size_r b" using cp cl by linarith
    have hb: "0 \<le> head b" "head b < int (length (buf b))" "size_r b \<le> int (length (buf b))"
      using assms pos by (simp_all add: ring_inv_def)
    have same: "Get (Remove b count) i = Get b i" if i: "0 \<le> i \<and> i < Size b - count" for i
    proof -
      have i0: "0 \<le> i" and il: "i < size_r b - count" using i by (simp_all add: Size_def)
      have m1: "i mod (size_r b - count) = i" using i0 il by simp
      have m2: "i mod size_r b = i" using i0 il cp by simp
      have "Get (b\<lparr>size_r := size_r b - count\<rparr>) i =
              Inr (Inr (buf b ! nat ((head b - i) mod int (length (buf b)))))"
        using Get_valid [of "b\<lparr>size_r := size_r b - count\<rparr>" i] cl cp hb m1 by simp
      moreover have "Get b i = Inr (Inr (buf b ! nat ((head b - i) mod int (length (buf b)))))"
        using Get_valid [of b i] pos hb m2 by simp
      ultimately show ?thesis using r by simp
    qed
    show "Size (Remove b count) = Size b - count \<and>
            head (Remove b count) = head b \<and> buf (Remove b count) = buf b \<and>
            (\<forall>i. 0 \<le> i \<and> i < Size b - count \<longrightarrow> Get (Remove b count) i = Get b i)"
      using r same by (simp add: Size_def)
  qed
  have vec: "\<exists>b0 b3. New 5 = Inr b0 \<and>
            AddAll b0 [Some (1::int), Some 2, Some 3] = Inr (None, b3) \<and>
            Size (Remove b3 2) = 1 \<and> Get (Remove b3 2) (- 1) = Inr (Inr (Some 3))"
    by (simp add: New_def AddAll_def AddAll_step_def Next_def go_rem_def slice_from_def
        copy_go_def Remove_def Size_def Get_def Index_def Index_loop.simps load_def Let_def
        eval_nat_numeral)
  from noop empty shrink vec show ?thesis by (simp only: simp_thms)
qed

theorem Remove_contract_witness:
  "ring_inv \<lparr>head = 2, size_r = 3, buf = [Some (1::int), Some 2, Some 3, None, None]\<rparr> \<and>
   (0::int) < 2 \<and> 2 < Size \<lparr>head = 2, size_r = 3, buf = [Some (1::int), Some 2, Some 3, None, None]\<rparr> \<and>
   Size (Remove \<lparr>head = 2, size_r = 3, buf = [Some (1::int), Some 2, Some 3, None, None]\<rparr> 2) = Size \<lparr>head = 2, size_r = 3, buf = [Some (1::int), Some 2, Some 3, None, None]\<rparr> - 2 \<and> head (Remove \<lparr>head = 2, size_r = 3, buf = [Some (1::int), Some 2, Some 3, None, None]\<rparr> 2) = head \<lparr>head = 2, size_r = 3, buf = [Some (1::int), Some 2, Some 3, None, None]\<rparr> \<and>
   buf (Remove \<lparr>head = 2, size_r = 3, buf = [Some (1::int), Some 2, Some 3, None, None]\<rparr> 2) = buf \<lparr>head = 2, size_r = 3, buf = [Some (1::int), Some 2, Some 3, None, None]\<rparr> \<and> Get (Remove \<lparr>head = 2, size_r = 3, buf = [Some (1::int), Some 2, Some 3, None, None]\<rparr> 2) 0 = Get \<lparr>head = 2, size_r = 3, buf = [Some (1::int), Some 2, Some 3, None, None]\<rparr> 0 \<and>
   Size \<lparr>head = 2, size_r = 3, buf = [Some (1::int), Some 2, Some 3, None, None]\<rparr> \<le> 7 \<and> Size (Remove \<lparr>head = 2, size_r = 3, buf = [Some (1::int), Some 2, Some 3, None, None]\<rparr> 7) = 0 \<and> head (Remove \<lparr>head = 2, size_r = 3, buf = [Some (1::int), Some 2, Some 3, None, None]\<rparr> 7) = - 1 \<and>
   (- 4 :: int) \<le> 0 \<and> Remove \<lparr>head = 2, size_r = 3, buf = [Some (1::int), Some 2, Some 3, None, None]\<rparr> (- 4) = \<lparr>head = 2, size_r = 3, buf = [Some (1::int), Some 2, Some 3, None, None]\<rparr>"
  (is "ring_inv ?B \<and> _")
proof -
  have inv: "ring_inv ?B"
    by (simp add: ring_inv_def)
  have h2: "(0::int) < 2 \<and> 2 < Size ?B"
    by (simp add: Size_def)
  have h7: "Size ?B \<le> 7"
    by (simp add: Size_def)
  have h4: "(- 4 :: int) \<le> 0"
    by simp
  have i0: "(0::int) \<le> 0 \<and> 0 < Size ?B - 2"
    by (simp add: Size_def)
  from Remove_contract [OF inv, of 2] h2 i0
  have c2: "Size (Remove ?B 2) = Size ?B - 2 \<and> head (Remove ?B 2) = head ?B \<and>
      buf (Remove ?B 2) = buf ?B \<and> Get (Remove ?B 2) 0 = Get ?B 0"
    by blast
  from Remove_contract [OF inv, of 7] h7
  have c7: "Size (Remove ?B 7) = 0 \<and> head (Remove ?B 7) = - 1"
    by blast
  from Remove_contract [OF inv, of "- 4"] h4
  have c4: "Remove ?B (- 4) = ?B"
    by blast
  from inv h2 c2 h7 c7 h4 c4 show ?thesis by blast
qed

section \<open>SetCapacity\<close>


lemma copy_go_fits:
  "length src \<le> length dst \<Longrightarrow> copy_go dst src = (src @ drop (length src) dst, length src)"
  by (simp add: copy_go_def Let_def min_def)

lemma mod_neg_fold:
  fixes x c :: int
  assumes "x < 0" "- c \<le> x"
  shows "x mod c = x + c"
proof -
  have "(x + c) mod c = x + c" using assms by (intro mod_pos_pos_trivial) linarith+
  moreover have "(x + c) mod c = x mod c" by (rule mod_add_self2)
  ultimately show ?thesis by simp
qed

lemma Index_oldest:
  assumes "0 < sz" "sz \<le> c" "0 \<le> h" "h < c"
  shows "Index (- 1) h sz c = Some ((h - (sz - 1)) mod c)"
proof -
  have "(- 1) mod sz = sz - 1" using assms(1) by (simp add: zmod_minus1)
  then show ?thesis using Index_inv [OF assms, of "- 1"] by simp
qed

lemma SetCapacity_noop:
  "(if n < size_r b then size_r b else n) = int (length (buf b)) \<Longrightarrow> SetCapacity b n = Inr b"
  by (simp add: SetCapacity_def Let_def)

lemma SetCapacity_empty:
  assumes "size_r b = 0" "head b = - 1" "(if n < 0 then 0 else n) \<noteq> int (length (buf b))"
  shows "SetCapacity b n = Inl SliceBoundsOutOfRange"
  using assms by (auto simp: SetCapacity_def Let_def Index_def slice_from_def split: if_splits)

lemma SetCapacity_relocate:
  assumes inv: "ring_inv b" and pos: "0 < size_r b"
    and ch: "max n (size_r b) \<noteq> int (length (buf b))"
  shows "\<exists>b'. SetCapacity b n = Inr b' \<and> size_r b' = size_r b \<and> head b' = size_r b - 1 \<and>
           int (length (buf b')) = max n (size_r b) \<and>
           (\<forall>j. j < nat (size_r b) \<longrightarrow>
              buf b' ! j = buf b ! nat ((head b - (size_r b - 1 - int j)) mod int (length (buf b))))"
proof -
  let ?c = "int (length (buf b))"
  define m where "m = nat (max n (size_r b))"
  define s where "s = nat (size_r b)"
  define h where "h = nat (head b)"
  define c where "c = length (buf b)"
  define nbuf :: "'a iface list" where "nbuf = replicate m None"
  have hb: "0 \<le> head b" "head b < ?c" and le: "size_r b \<le> ?c"
    using inv pos by (simp_all add: ring_inv_def)
  have si: "size_r b = int s" using pos by (simp add: s_def)
  have hi: "head b = int h" using hb by (simp add: h_def)
  have mi: "max n (size_r b) = int m" using pos by (simp add: m_def max_def)
  have s0: "0 < s" "s \<le> c" "h < c" "s \<le> m"
    using pos le hb by (simp_all add: s_def c_def h_def m_def)
  have cap: "(if n < size_r b then size_r b else n) = int m"
    using mi by (simp add: max_def split: if_splits)
  have capne: "int m \<noteq> ?c" using ch mi by simp
  have ix: "Index (- 1) (head b) (size_r b) ?c = Some ((head b - (size_r b - 1)) mod ?c)"
    using pos le hb by (rule Index_oldest)
  have nl: "length nbuf = m" by (simp add: nbuf_def)
  have unfold0: "SetCapacity b n =
      (if (head b - (size_r b - 1)) mod ?c < head b then
                 (case slice (buf b) ((head b - (size_r b - 1)) mod ?c) (head b + 1) of
                    Inl f \<Rightarrow> Inl f
                  | Inr src \<Rightarrow>
                      Inr (b\<lparr>buf := fst (copy_go nbuf src), head := size_r b - 1\<rparr>))
               else
                 (case slice_from (buf b) ((head b - (size_r b - 1)) mod ?c) of
                    Inl f \<Rightarrow> Inl f
                  | Inr src1 \<Rightarrow>
                      (let (nbuf1, k) = copy_go nbuf src1 in
                       case slice_to (buf b) (head b + 1) of
                         Inl f \<Rightarrow> Inl f
                       | Inr src2 \<Rightarrow>
                           Inr (b\<lparr>buf := take k nbuf1 @ fst (copy_go (drop k nbuf1) src2),
                                  head := size_r b - 1\<rparr>))))"
    unfolding SetCapacity_def Let_def cap nbuf_def nat_int using capne ix by simp
  have unfold: "SetCapacity b n =
      (if (int h - (int s - 1)) mod int c < int h then
                 (case slice (buf b) ((int h - (int s - 1)) mod int c) (int h + 1) of
                    Inl f \<Rightarrow> Inl f
                  | Inr src \<Rightarrow>
                      Inr (b\<lparr>buf := fst (copy_go nbuf src), head := int s - 1\<rparr>))
               else
                 (case slice_from (buf b) ((int h - (int s - 1)) mod int c) of
                    Inl f \<Rightarrow> Inl f
                  | Inr src1 \<Rightarrow>
                      (let (nbuf1, k) = copy_go nbuf src1 in
                       case slice_to (buf b) (int h + 1) of
                         Inl f \<Rightarrow> Inl f
                       | Inr src2 \<Rightarrow>
                           Inr (b\<lparr>buf := take k nbuf1 @ fst (copy_go (drop k nbuf1) src2),
                                  head := int s - 1\<rparr>))))"
    using unfold0 unfolding si hi c_def .
  have goal_eq: "(\<forall>j. j < nat (size_r b) \<longrightarrow>
              buf b' ! j = buf b ! nat ((head b - (size_r b - 1 - int j)) mod int (length (buf b))))
       = (\<forall>j. j < s \<longrightarrow> buf b' ! j = buf b ! nat ((int h - (int s - 1 - int j)) mod int c))" for b'
    unfolding si hi c_def by simp
  consider (one) "s \<le> h + 1" "1 < s" | (single) "s = 1" | (two) "h + 1 < s"
    using s0 by linarith
  then have "\<exists>b'. SetCapacity b n = Inr b' \<and> size_r b' = int s \<and> head b' = int s - 1 \<and>
           length (buf b') = m \<and>
           (\<forall>j. j < s \<longrightarrow> buf b' ! j = buf b ! nat ((int h - (int s - 1 - int j)) mod int c))"
  proof cases
    case one
    define t where "t = h + 1 - s"
    have tl: "(int h - (int s - 1)) mod int c = int t"
      using one s0 by (simp add: t_def)
    have lt: "int t < int h" using one by (simp add: t_def)
    have sl: "slice (buf b) (int t) (int h + 1) = Inr (take s (drop t (buf b)))"
    proof -
      have "nat (int h + 1) - nat (int t) = s" using one by (simp add: t_def)
      moreover have "\<not> (int t < 0 \<or> int h + 1 < int t \<or> int (length (buf b)) < int h + 1)"
        using one s0 by (simp add: t_def c_def)
      ultimately show ?thesis by (simp add: slice_def)
    qed
    have sl_len: "length (take s (drop t (buf b))) = s"
      using one s0 by (simp add: t_def c_def)
    have cp: "copy_go nbuf (take s (drop t (buf b))) = (take s (drop t (buf b)) @ drop s nbuf, s)"
      using copy_go_fits [of "take s (drop t (buf b))" nbuf] sl_len nl s0 by simp
    define b' where "b' = b\<lparr>buf := take s (drop t (buf b)) @ drop s nbuf, head := int s - 1\<rparr>"
    have r: "SetCapacity b n = Inr b'"
      unfolding unfold tl using lt sl cp by (simp add: b'_def)
    have len: "length (buf b') = m" using sl_len nl s0 by (simp add: b'_def)
    have nth: "buf b' ! j = buf b ! nat ((int h - (int s - 1 - int j)) mod int c)" if "j < s" for j
    proof -
      have "(int h - (int s - 1 - int j)) mod int c = int (t + j)"
        using one s0 that by (simp add: t_def)
      then have "nat ((int h - (int s - 1 - int j)) mod int c) = t + j"
        by (simp only: nat_int)
      moreover have "buf b' ! j = buf b ! (t + j)"
        using that sl_len one s0 by (simp add: b'_def nth_append t_def c_def)
      ultimately show ?thesis by simp
    qed
    show ?thesis using r len nth si by (intro exI [of _ b']) (simp add: b'_def)
  next
    case single
    have tl: "(int h - (int s - 1)) mod int c = int h"
      using single s0 by simp
    define k where "k = min m (c - h)"
    have k0: "0 < k" "k \<le> m" using s0 single by (simp_all add: k_def)
    have sl1: "slice_from (buf b) (int h) = Inr (drop h (buf b))"
      using s0 by (simp add: slice_from_def c_def)
    define nbuf1 where "nbuf1 = take k (drop h (buf b)) @ drop k nbuf"
    have cp1: "copy_go nbuf (drop h (buf b)) = (nbuf1, k)"
      using nl by (simp add: copy_go_def Let_def k_def c_def nbuf1_def)
    have sl2: "slice_to (buf b) (int h + 1) = Inr (take (Suc h) (buf b))"
    proof -
      have "nat (int h + 1) = Suc h" by simp
      moreover have "\<not> (int h + 1 < 0 \<or> int (length (buf b)) < int h + 1)"
        using s0 by (simp add: c_def)
      ultimately show ?thesis by (simp add: slice_to_def)
    qed
    define b' where "b' = b\<lparr>buf := take k nbuf1 @ fst (copy_go (drop k nbuf1) (take (Suc h) (buf b))),
                            head := int s - 1\<rparr>"
    have r: "SetCapacity b n = Inr b'"
      unfolding unfold tl using sl1 cp1 sl2 by (simp add: b'_def)
    have l1: "length nbuf1 = m" using nl k0 s0 by (simp add: nbuf1_def k_def c_def)
    have len: "length (buf b') = m"
      using l1 k0 by (simp add: b'_def copy_go_def Let_def)
    have nth: "buf b' ! j = buf b ! nat ((int h - (int s - 1 - int j)) mod int c)" if "j < s" for j
    proof -
      have j0: "j = 0" using that single by simp
      have "buf b' ! 0 = nbuf1 ! 0" using k0 l1 by (simp add: b'_def nth_append)
      also have "\<dots> = buf b ! h" using k0 s0 by (simp add: nbuf1_def nth_append k_def c_def)
      finally show ?thesis using j0 single s0 by simp
    qed
    show ?thesis using r len nth si by (intro exI [of _ b']) (simp add: b'_def)
  next
    case two
    define t where "t = h + 1 + c - s"
    define k where "k = s - h - 1"
    have tl: "(int h - (int s - 1)) mod int c = int t"
    proof -
      have "(int h - (int s - 1)) mod int c = (int h - (int s - 1)) + int c"
        using two s0 by (intro mod_neg_fold) linarith+
      then show ?thesis using two s0 by (simp add: t_def)
    qed
    have nlt: "\<not> int t < int h" using two s0 by (simp add: t_def)
    have tc: "t \<le> c" "c - t = k" "0 < k" "k + Suc h = s"
      using two s0 by (simp_all add: t_def k_def)
    have sl1: "slice_from (buf b) (int t) = Inr (drop t (buf b))"
      using tc by (simp add: slice_from_def c_def)
    have l1: "length (drop t (buf b)) = k" using tc by (simp add: c_def)
    have cp1: "copy_go nbuf (drop t (buf b)) = (drop t (buf b) @ drop k nbuf, k)"
      using copy_go_fits [of "drop t (buf b)" nbuf] l1 nl tc s0 by simp
    have sl2: "slice_to (buf b) (int h + 1) = Inr (take (Suc h) (buf b))"
    proof -
      have "nat (int h + 1) = Suc h" by simp
      moreover have "\<not> (int h + 1 < 0 \<or> int (length (buf b)) < int h + 1)"
        using s0 by (simp add: c_def)
      ultimately show ?thesis by (simp add: slice_to_def)
    qed
    have l2: "length (take (Suc h) (buf b)) = Suc h" using s0 by (simp add: c_def)
    have cp2: "copy_go (drop k nbuf) (take (Suc h) (buf b)) =
                 (take (Suc h) (buf b) @ drop (Suc h) (drop k nbuf), Suc h)"
      using copy_go_fits [of "take (Suc h) (buf b)" "drop k nbuf"] l2 nl tc s0 by simp
    define b' where "b' = b\<lparr>buf := drop t (buf b) @ take (Suc h) (buf b) @ drop (Suc h) (drop k nbuf),
                            head := int s - 1\<rparr>"
    have r: "SetCapacity b n = Inr b'"
      unfolding unfold tl using nlt sl1 cp1 sl2 cp2 l1 by (simp add: b'_def)
    have len: "length (buf b') = m"
      using l1 l2 nl tc s0 by (simp add: b'_def)
    have nth: "buf b' ! j = buf b ! nat ((int h - (int s - 1 - int j)) mod int c)" if "j < s" for j
    proof (cases "j < k")
      case True
      have jk: "j + h + 1 < s" using True by (simp add: k_def)
      have "(int h - (int s - 1 - int j)) mod int c = (int h - (int s - 1 - int j)) + int c"
        using jk s0 by (intro mod_neg_fold) linarith+
      then have "nat ((int h - (int s - 1 - int j)) mod int c) = t + j"
        using jk s0 by (simp add: t_def)
      moreover have "buf b' ! j = buf b ! (t + j)"
        using True l1 tc by (simp add: b'_def nth_append c_def)
      ultimately show ?thesis by simp
    next
      case False
      have jh: "j - k < Suc h" using False that tc by linarith
      have "(int h - (int s - 1 - int j)) mod int c = int (j - k)"
        using False that two s0 by (simp add: k_def)
      then have e: "nat ((int h - (int s - 1 - int j)) mod int c) = j - k"
        by (simp only: nat_int)
      have "buf b' ! j = buf b ! (j - k)"
        using False jh l1 l2 by (simp add: b'_def nth_append)
      with e show ?thesis by simp
    qed
    show ?thesis using r len nth si by (intro exI [of _ b']) (simp add: b'_def)
  qed
  then obtain b' where b': "SetCapacity b n = Inr b'" "size_r b' = int s" "head b' = int s - 1"
           "length (buf b') = m"
           "\<forall>j. j < s \<longrightarrow> buf b' ! j = buf b ! nat ((int h - (int s - 1 - int j)) mod int c)"
    by blast
  have "int (length (buf b')) = max n (size_r b)" using b'(4) mi by simp
  then show ?thesis using b' goal_eq [of b'] si by auto
qed

text \<open>
  Claim C1 says that \<^verbatim>\<open>SetCapacity\<close> never fails, the empty ring included. On the
  empty ring \<^verbatim>\<open>Index\<close> returns \<open>-1\<close> for the tail and head is \<open>-1\<close>, so
  \<^verbatim>\<open>tail < head\<close> is false and the two-piece branch evaluates \<^verbatim>\<open>b.buf[-1:]\<close>,
  which panics. The ring made by \<^verbatim>\<open>New(5)\<close> and the call \<^verbatim>\<open>SetCapacity(10)\<close>
  show it.
\<close>

theorem SetCapacity_empty_ring_panics:
  "New 5 = Inr \<lparr>head = - 1, size_r = 0, buf = [None, None, None, None, None :: int option]\<rparr> \<and>
   SetCapacity \<lparr>head = - 1, size_r = 0, buf = [None, None, None, None, None :: int option]\<rparr> 10
     = Inl SliceBoundsOutOfRange"
  by (simp add: New_def SetCapacity_def Index_def slice_from_def Let_def eval_nat_numeral)

text \<open>
  Claim C2 as stated asks for \<open>head = size - 1\<close> after every call. When the
  requested capacity is the current one the call returns at once and head stays where
  it was: after \<^verbatim>\<open>New(3)\<close>, \<^verbatim>\<open>Add(1)\<close>, \<^verbatim>\<open>Add(2)\<close>, \<^verbatim>\<open>Remove(1)\<close> the head
  is 1 and the size is 1, and \<^verbatim>\<open>SetCapacity(3)\<close> leaves both.
\<close>

theorem SetCapacity_same_capacity_counterexample:
  "New 3 = Inr \<lparr>head = - 1, size_r = 0, buf = [None, None, None :: int option]\<rparr> \<and>
   run \<lparr>head = - 1, size_r = 0, buf = [None, None, None :: int option]\<rparr>
       [CallAdd (Some 1), CallAdd (Some 2), CallRemove 1]
     = Inr \<lparr>head = 1, size_r = 1, buf = [Some 1, Some 2, None]\<rparr> \<and>
   SetCapacity \<lparr>head = 1, size_r = 1, buf = [Some (1::int), Some 2, None]\<rparr> 3
     = Inr \<lparr>head = 1, size_r = 1, buf = [Some 1, Some 2, None]\<rparr> \<and>
   head \<lparr>head = 1, size_r = 1, buf = [Some (1::int), Some 2, None]\<rparr>
     \<noteq> Size \<lparr>head = 1, size_r = 1, buf = [Some (1::int), Some 2, None]\<rparr> - 1"
  by (simp add: New_def Add_def Next_def go_rem_def store_def Remove_def SetCapacity_def
      Size_def Let_def eval_nat_numeral)

text \<open>
  Claim C2, amended. In every state that satisfies the ring invariant and either holds
  an element or already has the requested capacity, for every \<open>newCap\<close>,
  \<^verbatim>\<open>SetCapacity(newCap)\<close> returns, the size is unchanged, \<^verbatim>\<open>Get(i)\<close> is unchanged
  for \<open>0 \<le> i < size\<close>, and the capacity is \<open>max newCap size\<close>. When that is the
  old capacity the ring is unchanged, head included. Otherwise \<open>head = size - 1\<close>
  and the live window lies at the front of the new array, oldest first: slot
  \<open>size - 1 - i\<close> holds the element at offset \<open>i\<close>.
\<close>

theorem SetCapacity_preserves:
  assumes "ring_inv b" and "0 < Size b \<or> max n (Size b) = Capacity b"
  shows "\<exists>b'. SetCapacity b n = Inr b' \<and> Size b' = Size b \<and>
           Capacity b' = max n (Size b) \<and>
           (\<forall>i. 0 \<le> i \<and> i < Size b \<longrightarrow> Get b' i = Get b i) \<and>
           (max n (Size b) = Capacity b \<longrightarrow> b' = b) \<and>
           (max n (Size b) \<noteq> Capacity b \<longrightarrow>
              head b' = Size b - 1 \<and>
              (\<forall>i. 0 \<le> i \<and> i < Size b \<longrightarrow>
                 Inr (Inr (buf b' ! nat (Size b - 1 - i))) = Get b i))"
proof (cases "max n (size_r b) = int (length (buf b))")
  case True
  then have "SetCapacity b n = Inr b"
    by (intro SetCapacity_noop) (simp add: max_def split: if_splits)
  with True show ?thesis by (simp add: Size_def Capacity_def)
next
  case False
  let ?c = "int (length (buf b))"
  have pos: "0 < size_r b" using False assms(2) by (simp add: Size_def Capacity_def)
  have hb: "0 \<le> head b" "head b < ?c" "size_r b \<le> ?c"
    using assms(1) pos by (simp_all add: ring_inv_def)
  from SetCapacity_relocate [OF assms(1) pos False]
  obtain b' where b': "SetCapacity b n = Inr b'" "size_r b' = size_r b"
    "head b' = size_r b - 1" "int (length (buf b')) = max n (size_r b)"
    "\<forall>j. j < nat (size_r b) \<longrightarrow>
        buf b' ! j = buf b ! nat ((head b - (size_r b - 1 - int j)) mod ?c)"
    by blast
  have slot: "Inr (Inr (buf b' ! nat (size_r b - 1 - i))) = Get b i"
    if i: "0 \<le> i \<and> i < size_r b" for i
  proof -
    have m: "i mod size_r b = i" using i by simp
    have j: "nat (size_r b - 1 - i) < nat (size_r b)" using i by linarith
    have "int (nat (size_r b - 1 - i)) = size_r b - 1 - i" using i by simp
    then have "buf b' ! nat (size_r b - 1 - i) = buf b ! nat ((head b - i) mod ?c)"
      using b'(5) j by simp
    moreover have "Get b i = Inr (Inr (buf b ! nat ((head b - i) mod ?c)))"
      using Get_valid [of b i] pos hb m by simp
    ultimately show ?thesis by simp
  qed
  have same: "Get b' i = Get b i" if i: "0 \<le> i \<and> i < size_r b" for i
  proof -
    have m: "i mod size_r b = i" using i by simp
    have c': "size_r b \<le> int (length (buf b'))" using b'(4) by simp
    have r: "0 \<le> size_r b - 1 - i" "size_r b - 1 - i < int (length (buf b'))"
      using i c' by linarith+
    have "(size_r b - 1 - i) mod int (length (buf b')) = size_r b - 1 - i"
      using r by (rule mod_pos_pos_trivial)
    then have "Get b' i = Inr (Inr (buf b' ! nat (size_r b - 1 - i)))"
      using Get_valid [of b' i] b'(2,3) pos c' m by simp
    with slot [OF i] show ?thesis by simp
  qed
  have "SetCapacity b n = Inr b' \<and> Size b' = Size b \<and>
           Capacity b' = max n (Size b) \<and>
           (\<forall>i. 0 \<le> i \<and> i < Size b \<longrightarrow> Get b' i = Get b i) \<and>
           (max n (Size b) = Capacity b \<longrightarrow> b' = b) \<and>
           (max n (Size b) \<noteq> Capacity b \<longrightarrow>
              head b' = Size b - 1 \<and>
              (\<forall>i. 0 \<le> i \<and> i < Size b \<longrightarrow>
                 Inr (Inr (buf b' ! nat (Size b - 1 - i))) = Get b i))"
    using b'(1,2,3,4) same slot False by (simp add: Size_def Capacity_def)
  then show ?thesis ..
qed

theorem SetCapacity_preserves_witness:
  "ring_inv \<lparr>head = 0, size_r = 3, buf = [Some (3::int), Some 8, Some 1, Some 2]\<rparr> \<and>
   0 < Size \<lparr>head = 0, size_r = 3, buf = [Some (3::int), Some 8, Some 1, Some 2]\<rparr> \<and>
   max 6 (Size \<lparr>head = 0, size_r = 3, buf = [Some (3::int), Some 8, Some 1, Some 2]\<rparr>)
     \<noteq> Capacity \<lparr>head = 0, size_r = 3, buf = [Some (3::int), Some 8, Some 1, Some 2]\<rparr> \<and>
   SetCapacity \<lparr>head = 0, size_r = 3, buf = [Some (3::int), Some 8, Some 1, Some 2]\<rparr> 6
     = Inr \<lparr>head = 2, size_r = 3, buf = [Some 1, Some 2, Some 3, None, None, None]\<rparr> \<and>
   Get \<lparr>head = 2, size_r = 3, buf = [Some (1::int), Some 2, Some 3, None, None, None]\<rparr> 2
     = Get \<lparr>head = 0, size_r = 3, buf = [Some (3::int), Some 8, Some 1, Some 2]\<rparr> 2 \<and>
   head \<lparr>head = 2, size_r = 3, buf = [Some (1::int), Some 2, Some 3, None, None, None]\<rparr>
     = Size \<lparr>head = 0, size_r = 3, buf = [Some (3::int), Some 8, Some 1, Some 2]\<rparr> - 1 \<and>
   ring_inv \<lparr>head = - 1, size_r = 0, buf = [None :: int option, None]\<rparr> \<and>
   max 2 (Size \<lparr>head = - 1, size_r = 0, buf = [None :: int option, None]\<rparr>)
     = Capacity \<lparr>head = - 1, size_r = 0, buf = [None :: int option, None]\<rparr> \<and>
   SetCapacity \<lparr>head = - 1, size_r = 0, buf = [None :: int option, None]\<rparr> 2
     = Inr \<lparr>head = - 1, size_r = 0, buf = [None, None]\<rparr>"
proof -
  let ?old = "\<lparr>head = 0, size_r = 3, buf = [Some (3::int), Some 8, Some 1, Some 2]\<rparr>"
  let ?new = "\<lparr>head = 2, size_r = 3, buf = [Some (1::int), Some 2, Some 3, None, None, None]\<rparr>"
  let ?empty = "\<lparr>head = - 1, size_r = 0, buf = [None :: int option, None]\<rparr>"
  have inv: "ring_inv ?old" by (simp add: ring_inv_def)
  have h: "0 < Size ?old" by (simp add: Size_def)
  have ne: "max 6 (Size ?old) \<noteq> Capacity ?old" by (simp add: Size_def Capacity_def)
  have i2: "(0::int) \<le> 2 \<and> 2 < Size ?old" by (simp add: Size_def)
  have ev: "SetCapacity ?old 6 = Inr ?new"
    by (simp add: SetCapacity_def Index_def Index_loop.simps go_rem_def slice_from_def
        slice_to_def copy_go_def Let_def eval_nat_numeral)
  from SetCapacity_preserves [OF inv disjI1 [OF h], of 6] ev ne i2
  have moved: "Get ?new 2 = Get ?old 2 \<and> head ?new = Size ?old - 1"
    by auto
  have inv0: "ring_inv ?empty" by (simp add: ring_inv_def)
  have same: "max 2 (Size ?empty) = Capacity ?empty" by (simp add: Size_def Capacity_def)
  from SetCapacity_preserves [OF inv0 disjI2 [OF same]] same
  have kept: "SetCapacity ?empty 2 = Inr ?empty"
    by auto
  from inv h ne ev moved inv0 same kept show ?thesis by blast
qed

section \<open>The invariant along a run\<close>

lemma New_inv: "New capacity = Inr b \<Longrightarrow> ring_inv b"
  by (auto simp: New_def ring_inv_def split: if_splits)

lemma Add_inv:
  assumes "ring_inv b" "Add b v = Inr (e, b')"
  shows "ring_inv b'"
proof (cases "int (length (buf b)) \<le> size_r b")
  case True
  then show ?thesis using assms by (simp add: Add_full)
next
  case False
  let ?c = "int (length (buf b))"
  have lt: "size_r b < ?c" using False by simp
  have sz: "0 \<le> size_r b" using assms(1) by (simp add: ring_inv_def)
  have c: "0 < ?c" using lt sz by linarith
  have r: "0 \<le> (head b + 1) mod ?c" "(head b + 1) mod ?c < ?c" using c by simp_all
  have "b' = b\<lparr>buf := (buf b)[nat ((head b + 1) mod ?c) := v],
                 head := (head b + 1) mod ?c, size_r := size_r b + 1\<rparr>"
    using Add_ok [OF lt sz, of v] assms(2) by simp
  then show ?thesis using lt sz r by (simp add: ring_inv_def)
qed

lemma Add_seq_inv: "ring_inv b \<Longrightarrow> Add_seq b vs = Inr (e, b') \<Longrightarrow> ring_inv b'"
proof (induction vs arbitrary: b)
  case Nil
  then show ?case by simp
next
  case (Cons v vs)
  show ?case
  proof (cases "Add b v")
    case (Inl f)
    then show ?thesis using Cons.prems by simp
  next
    case (Inr r)
    obtain e1 b1 where r: "r = (e1, b1)" by (cases r)
    have i1: "ring_inv b1" using Add_inv [OF Cons.prems(1)] Inr r by simp
    show ?thesis
    proof (cases e1)
      case None
      then show ?thesis using Cons.prems(2) Inr r Cons.IH [OF i1] by simp
    next
      case (Some x)
      then show ?thesis using Cons.prems(2) Inr r i1 by simp
    qed
  qed
qed

lemma AddAll_inv:
  assumes "ring_inv b" "AddAll b vs = Inr (e, b')"
  shows "ring_inv b'"
proof (cases "int (length (buf b)) < size_r b + int (length vs)")
  case True
  then show ?thesis using assms by (simp add: AddAll_def)
next
  case False
  then have fit: "size_r b + int (length vs) \<le> int (length (buf b))" by simp
  from AddAll_loop_Add_seq [OF assms(1) fit]
  obtain b1 where b1: "AddAll_loop b vs = Inr b1" "Add_seq b vs = Inr (None, b1)" by blast
  have "b' = b1" using assms(2) False b1(1) by (simp add: AddAll_def)
  then show ?thesis using Add_seq_inv [OF assms(1) b1(2)] by simp
qed

lemma Remove_inv: "ring_inv b \<Longrightarrow> ring_inv (Remove b n)"
  by (auto simp: Remove_def ring_inv_def Let_def)

lemma Push_inv:
  assumes "ring_inv b" "Push b v = Inr b'"
  shows "ring_inv b'"
proof (cases "length (buf b) = 0 \<or> size_r b = 0")
  case True
  then show ?thesis using assms by (simp add: Push_def)
next
  case False
  let ?c = "int (length (buf b))"
  have c: "0 < ?c" using False by simp
  define h' where "h' = (head b + 1) mod ?c"
  have r: "0 \<le> h'" "h' < ?c" using c by (simp_all add: h'_def)
  have nx: "Next 1 (head b) ?c = Inr h'" using c by (simp add: Next_mod h'_def)
  have "Push b v = Inr (b\<lparr>buf := (buf b)[nat h' := v], head := h'\<rparr>)"
    using False nx r by (simp add: Push_def store_def)
  then have "b' = b\<lparr>buf := (buf b)[nat h' := v], head := h'\<rparr>"
    using assms(2) by simp
  then show ?thesis using assms(1) False r by (simp add: ring_inv_def)
qed

lemma SetCapacity_inv:
  assumes "ring_inv b" "SetCapacity b n = Inr b'"
  shows "ring_inv b'"
proof (cases "max n (size_r b) = int (length (buf b))")
  case True
  then have "SetCapacity b n = Inr b"
    by (intro SetCapacity_noop) (simp add: max_def split: if_splits)
  then show ?thesis using assms by simp
next
  case False
  show ?thesis
  proof (cases "size_r b = 0")
    case True
    then have "head b = - 1" using assms(1) by (simp add: ring_inv_def)
    moreover have "(if n < 0 then 0 else n) \<noteq> int (length (buf b))"
      using False True by (simp add: max_def split: if_splits)
    ultimately have "SetCapacity b n = Inl SliceBoundsOutOfRange"
      using True by (intro SetCapacity_empty)
    then show ?thesis using assms(2) by simp
  next
    case nz: False
    then have pos: "0 < size_r b" using assms(1) by (simp add: ring_inv_def)
    from SetCapacity_relocate [OF assms(1) pos False]
    obtain b1 where b1: "SetCapacity b n = Inr b1" "size_r b1 = size_r b"
      "head b1 = size_r b - 1" "int (length (buf b1)) = max n (size_r b)"
      by blast
    have "b' = b1" using assms(2) b1(1) by simp
    then show ?thesis using b1 pos by (simp add: ring_inv_def)
  qed
qed

lemma exec_inv: "ring_inv b \<Longrightarrow> exec b c = Inr b' \<Longrightarrow> ring_inv b'"
proof (cases c)
  case (CallAdd v)
  assume "ring_inv b" "exec b c = Inr b'"
  then show ?thesis using CallAdd
    by (auto split: sum.splits prod.splits dest: Add_inv)
next
  case (CallAddAll vs)
  assume "ring_inv b" "exec b c = Inr b'"
  then show ?thesis using CallAddAll
    by (auto split: sum.splits prod.splits dest: AddAll_inv)
next
  case (CallRemove n)
  assume "ring_inv b" "exec b c = Inr b'"
  then show ?thesis using CallRemove by (auto simp: Remove_inv)
next
  case (CallPush v)
  assume "ring_inv b" "exec b c = Inr b'"
  then show ?thesis using CallPush by (auto dest: Push_inv)
next
  case (CallSetCapacity n)
  assume "ring_inv b" "exec b c = Inr b'"
  then show ?thesis using CallSetCapacity by (auto dest: SetCapacity_inv)
next
  case (CallGet i)
  assume "ring_inv b" "exec b c = Inr b'"
  then show ?thesis using CallGet by (auto split: sum.splits)
qed

lemma run_inv: "ring_inv b \<Longrightarrow> run b cs = Inr b' \<Longrightarrow> ring_inv b'"
proof (induction cs arbitrary: b)
  case Nil
  then show ?case by simp
next
  case (Cons c cs)
  then obtain b1 where s: "exec b c = Inr b1" and r: "run b1 cs = Inr b'"
    by (auto split: sum.splits)
  from exec_inv [OF Cons.prems(1) s] have "ring_inv b1" .
  from Cons.IH [OF this r] show ?case .
qed

text \<open>
  Claim C10. Every ring reached from \<^verbatim>\<open>New(capacity)\<close> with \<open>capacity \<ge> 0\<close> by
  a sequence of calls of \<^verbatim>\<open>Add\<close>, \<^verbatim>\<open>AddAll\<close>, \<^verbatim>\<open>Remove\<close>, \<^verbatim>\<open>Push\<close>,
  \<^verbatim>\<open>SetCapacity\<close> and \<^verbatim>\<open>Get\<close> that all return satisfies
  \<open>0 \<le> size \<le> len(buf)\<close>, has \<open>size = 0\<close> exactly when \<open>head = -1\<close>, and has
  \<open>0 \<le> head < len(buf)\<close> when \<open>size > 0\<close>. \<^verbatim>\<open>New\<close> itself returns for every
  such capacity.
\<close>

theorem reachable_invariant:
  assumes "0 \<le> capacity"
  shows "\<exists>b0. New capacity = Inr b0 \<and>
           (\<forall>cs b. run b0 cs = Inr b \<longrightarrow>
              0 \<le> size_r b \<and> size_r b \<le> int (length (buf b)) \<and>
              (size_r b = 0 \<longleftrightarrow> head b = - 1) \<and>
              (0 < size_r b \<longrightarrow> 0 \<le> head b \<and> head b < int (length (buf b))))"
proof -
  obtain b0 :: "'a Ring" where n: "New capacity = Inr b0"
    using assms by (simp add: New_def)
  have i0: "ring_inv b0" using n by (rule New_inv)
  have "0 \<le> size_r b \<and> size_r b \<le> int (length (buf b)) \<and>
              (size_r b = 0 \<longleftrightarrow> head b = - 1) \<and>
              (0 < size_r b \<longrightarrow> 0 \<le> head b \<and> head b < int (length (buf b)))"
    if "run b0 cs = Inr b" for cs b
    using run_inv [OF i0 that] by (simp add: ring_inv_def)
  with n show ?thesis by blast
qed

theorem reachable_invariant_witness:
  "(0::int) \<le> 3 \<and>
   New 3 = Inr \<lparr>head = - 1, size_r = 0, buf = [None, None, None :: int option]\<rparr> \<and>
   run \<lparr>head = - 1, size_r = 0, buf = [None, None, None :: int option]\<rparr>
       [CallAdd (Some 1), CallAddAll [Some 2, Some 3], CallRemove 2, CallPush (Some 9),
        CallSetCapacity 5, CallGet 0]
     = Inr \<lparr>head = 0, size_r = 1, buf = [Some 9, Some 2, Some 3, Some 9, None]\<rparr> \<and>
   ring_inv \<lparr>head = 0, size_r = 1, buf = [Some (9::int), Some 2, Some 3, Some 9, None]\<rparr>"
proof -
  let ?init = "\<lparr>head = - 1, size_r = 0, buf = [None, None, None :: int option]\<rparr>"
  let ?cs = "[CallAdd (Some (1::int)), CallAddAll [Some 2, Some 3], CallRemove 2, CallPush (Some 9),
        CallSetCapacity 5, CallGet 0]"
  let ?final = "\<lparr>head = 0, size_r = 1, buf = [Some (9::int), Some 2, Some 3, Some 9, None]\<rparr>"
  have n: "New 3 = Inr ?init"
    by (simp add: New_def eval_nat_numeral)
  have r: "run ?init ?cs = Inr ?final"
    by (simp add: Add_def AddAll_def AddAll_step_def Next_def go_rem_def store_def
        slice_from_def slice_to_def copy_go_def Remove_def Push_def SetCapacity_def
        Get_def Index_def Index_loop.simps load_def Let_def eval_nat_numeral)
  have c: "(0::int) \<le> 3" by simp
  from reachable_invariant [OF c, where ?'a = int]
  obtain b0 :: "int Ring" where b0: "New 3 = Inr b0"
    and every: "\<And>cs b. run b0 cs = Inr b \<Longrightarrow>
              0 \<le> size_r b \<and> size_r b \<le> int (length (buf b)) \<and>
              (size_r b = 0 \<longleftrightarrow> head b = - 1) \<and>
              (0 < size_r b \<longrightarrow> 0 \<le> head b \<and> head b < int (length (buf b)))"
    by blast
  have "b0 = ?init" using b0 n by simp
  then have "run b0 ?cs = Inr ?final" using r by simp
  from every [OF this] have "ring_inv ?final" unfolding ring_inv_def .
  with c n r show ?thesis by blast
qed

end
